theory Spec2Isabelle
  imports Main "HOL-Library.Char_ord" "HOL-Library.List_Lexorder"
begin

section \<open>QString and QChar operations used by the lexer and the parser\<close>

text \<open>
  A \<open>QString\<close> is modelled as a \<open>string\<close>: one \<open>char\<close> per \<open>QChar\<close>, restricted to the
  code points 0..255. Indices and lengths are \<open>int\<close>, as in the source, because
  \<open>indexOf\<close> answers \<open>-1\<close> when nothing is found and the code compares against it.
\<close>

definition isSpace :: "char \<Rightarrow> bool" where
  \<comment> \<open>\<open>QChar::isSpace\<close> on 0..255: TAB..CR, SPACE, NEL and NBSP.\<close>
  "isSpace c \<longleftrightarrow>
     c \<in> set [CHR 0x09, CHR 0x0A, CHR 0x0B, CHR 0x0C, CHR 0x0D, CHR 0x20, CHR 0x85, CHR 0xA0]"

definition isLetterOrNumber :: "char \<Rightarrow> bool" where
  \<comment> \<open>\<open>QChar::isLetterOrNumber\<close> on 0..255: the categories Letter and Number.\<close>
  "isLetterOrNumber c \<longleftrightarrow>
     (let n = (of_char c :: nat) in
        (48 \<le> n \<and> n \<le> 57) \<or> (65 \<le> n \<and> n \<le> 90) \<or> (97 \<le> n \<and> n \<le> 122) \<or>
        n = 170 \<or> n = 178 \<or> n = 179 \<or> n = 181 \<or> n = 185 \<or> n = 186 \<or>
        (188 \<le> n \<and> n \<le> 190) \<or> (192 \<le> n \<and> n \<le> 214) \<or>
        (216 \<le> n \<and> n \<le> 246) \<or> (248 \<le> n \<and> n \<le> 255))"

definition trimmed :: "string \<Rightarrow> string" where
  "trimmed s = rev (dropWhile isSpace (rev (dropWhile isSpace s)))"

definition startsWith :: "string \<Rightarrow> string \<Rightarrow> bool" where
  "startsWith s p \<longleftrightarrow> take (length p) s = p"

definition endsWith :: "string \<Rightarrow> string \<Rightarrow> bool" where
  "endsWith s p \<longleftrightarrow> length p \<le> length s \<and> drop (length s - length p) s = p"

definition size_q :: "string \<Rightarrow> int" where
  "size_q s = int (length s)"

definition at :: "string \<Rightarrow> int \<Rightarrow> char" where
  \<comment> \<open>\<open>s[i]\<close>; every call site guards \<open>0 \<le> i < s.size()\<close>.\<close>
  "at s i = s ! nat i"

definition mid :: "string \<Rightarrow> int \<Rightarrow> string" where
  \<comment> \<open>\<open>s.mid(pos)\<close> with \<open>pos \<ge> 0\<close>: the rest of the string from \<open>pos\<close>.\<close>
  "mid s pos = drop (nat pos) s"

definition mid2 :: "string \<Rightarrow> int \<Rightarrow> int \<Rightarrow> string" where
  \<comment> \<open>\<open>s.mid(pos, n)\<close> with \<open>pos \<ge> 0\<close> and \<open>n \<ge> 0\<close>, cut at the end of the string.\<close>
  "mid2 s pos n = take (nat n) (drop (nat pos) s)"

definition left :: "string \<Rightarrow> int \<Rightarrow> string" where
  "left s n = take (nat n) s"

fun findFirst :: "string \<Rightarrow> string \<Rightarrow> nat option" where
  "findFirst p [] = (if p = [] then Some 0 else None)"
| "findFirst p (c # cs) =
     (if take (length p) (c # cs) = p then Some 0 else map_option Suc (findFirst p cs))"

definition indexOf :: "string \<Rightarrow> string \<Rightarrow> int \<Rightarrow> int" where
  \<comment> \<open>\<open>s.indexOf(p, from)\<close> for \<open>from \<ge> 0\<close>: the first position at or after \<open>from\<close>
      where \<open>p\<close> occurs, or \<open>-1\<close>.\<close>
  "indexOf s p from =
     (if from > size_q s then -1
      else case findFirst p (drop (nat from) s) of
             None \<Rightarrow> -1
           | Some k \<Rightarrow> int (nat from + k))"

definition lastIndexOf :: "string \<Rightarrow> char \<Rightarrow> int" where
  "lastIndexOf s c =
     (case findFirst [c] (rev s) of
        None \<Rightarrow> -1
      | Some k \<Rightarrow> int (length s - 1 - k))"

definition contains :: "string \<Rightarrow> char \<Rightarrow> bool" where
  "contains s c \<longleftrightarrow> c \<in> set s"

fun join :: "string list \<Rightarrow> string \<Rightarrow> string" where
  "join [] sep = []"
| "join [x] sep = x"
| "join (x # y # xs) sep = x @ sep @ join (y # xs) sep"

fun splitChar :: "string \<Rightarrow> char \<Rightarrow> string list" where
  \<comment> \<open>\<open>s.split(c)\<close>, empty parts kept: the empty string gives one empty part.\<close>
  "splitChar [] c = [[]]"
| "splitChar (x # xs) c =
     (if x = c then [] # splitChar xs c
      else (case splitChar xs c of
              [] \<Rightarrow> [[x]]
            | p # ps \<Rightarrow> (x # p) # ps))"

definition digitChar :: "nat \<Rightarrow> char" where
  "digitChar d = char_of (48 + d)"

function showNat :: "nat \<Rightarrow> string" where
  "showNat n = (if n < 10 then [digitChar n] else showNat (n div 10) @ [digitChar (n mod 10)])"
  by pat_completeness auto
termination
  by (relation "measure id") auto

definition number :: "int \<Rightarrow> string" where
  \<comment> \<open>\<open>QString::number(int)\<close>, decimal.\<close>
  "number i = (if i < 0 then CHR ''-'' # showNat (nat (- i)) else showNat (nat i))"

type_synonym qmap = "(string \<times> string) list"

fun qmapInsert :: "string \<Rightarrow> string \<Rightarrow> qmap \<Rightarrow> qmap" where
  \<comment> \<open>\<open>QMap::insert\<close>: keys are kept in ascending order, an existing key is overwritten.\<close>
  "qmapInsert k v [] = [(k, v)]"
| "qmapInsert k v ((k', v') # m) =
     (if k = k' then (k, v) # m
      else if k < k' then (k, v) # (k', v') # m
      else (k', v') # qmapInsert k v m)"

definition qmapValue :: "qmap \<Rightarrow> string \<Rightarrow> string" where
  \<comment> \<open>\<open>QMap::value\<close>: the empty string for a missing key.\<close>
  "qmapValue m k = (case map_of m k of None \<Rightarrow> [] | Some v \<Rightarrow> v)"


section \<open>Line tokens and the lexer\<close>

datatype Kind =
    T_EOF | T_BLANK
  | T_BLOCK_ANCHOR | T_BLOCK_ATTRS | T_BLOCK_TITLE
  | T_SECTION | T_ADMONITION | T_LINE_COMMENT
  | T_THEMATIC | T_PAGEBREAK
  | T_UL_ITEM | T_OL_ITEM | T_DESC_TERM | T_LIST_CONT
  | T_DELIM_LISTING | T_DELIM_LITERAL | T_DELIM_QUOTE | T_DELIM_EXAMPLE
  | T_DELIM_SIDEBAR | T_DELIM_OPEN | T_DELIM_PASSTHROUGH | T_DELIM_COMMENT
  | T_TABLE_DELIM | T_TABLE_LINE
  | T_BLOCK_MACRO | T_DIRECTIVE | T_STEM_ATTR_LINE
  | T_TEXT

text \<open>
  \<open>T_DELIM_PASSTHROUGH\<close> and \<open>T_STEM_ATTR_LINE\<close> are tested by the parser; \<open>classify\<close> below
  never produces them, nor \<open>T_BLOCK_ATTRS\<close>.
\<close>

record LineTok =
  kind :: Kind
  lineNo :: int
  raw :: string
  level :: int
  head :: string
  rest :: string

definition newTok :: LineTok where
  \<comment> \<open>The constructor \<open>LineTok()\<close>.\<close>
  "newTok = \<lparr>kind = T_EOF, lineNo = 0, raw = [], level = 0, head = [], rest = []\<rparr>"

definition startsWithRun :: "string \<Rightarrow> char \<Rightarrow> nat \<Rightarrow> nat \<Rightarrow> nat option" where
  \<comment> \<open>The run length \<open>n\<close> (at most \<open>maxN\<close>) when it is at least \<open>minN\<close>.\<close>
  "startsWithRun s ch minN maxN =
     (let n = length (takeWhile (\<lambda>c. c = ch) (take maxN s))
      in if n \<ge> minN then Some n else None)"

definition markerRun :: "string \<Rightarrow> char \<Rightarrow> int option" where
  \<comment> \<open>\<open>startsWithRun(s, ch, 1, 6, &n) && s.size() > n && s[n].isSpace()\<close>.\<close>
  "markerRun s ch =
     (case startsWithRun s ch 1 6 of
        None \<Rightarrow> None
      | Some n \<Rightarrow> if length s > n \<and> isSpace (s ! n) then Some (int n) else None)"

definition trailingColons :: "string \<Rightarrow> int" where
  "trailingColons s = int (length (takeWhile (\<lambda>c. c = CHR '':'') (rev s)))"

definition thematicQuotes :: string where
  "thematicQuotes = [CHR 0x27, CHR 0x27, CHR 0x27]"

definition classify :: "string \<Rightarrow> int \<Rightarrow> LineTok" where
  "classify line n =
     (let t = newTok\<lparr>lineNo := n, raw := line\<rparr>;
          s = trimmed line
      in
      if s = [] then t\<lparr>kind := T_BLANK\<rparr>
      else if startsWith s ''[['' \<and> endsWith s '']]'' then
        t\<lparr>kind := T_BLOCK_ANCHOR, rest := s\<rparr>
      else if size_q s \<ge> 2 \<and> at s 0 = CHR ''.'' \<and> \<not> isSpace (at s 1) then
        t\<lparr>kind := T_BLOCK_TITLE, rest := mid s 1\<rparr>
      else if startsWith s ''ifdef::'' \<or> startsWith s ''ifndef::'' \<or> startsWith s ''endif::'' then
        (let p = indexOf s ''::'' 0
         in t\<lparr>kind := T_DIRECTIVE, head := left s p, rest := mid s (p + 2)\<rparr>)
      else if startsWith s ''include::'' then
        (let p = indexOf s ''::'' 0
         in t\<lparr>kind := T_BLOCK_MACRO, head := left s p, rest := mid s (p + 2)\<rparr>)
      else if indexOf s ''::'' 0 > 0 \<and> indexOf s ''['' 0 > indexOf s ''::'' 0 then
        (let p = indexOf s ''::'' 0
         in t\<lparr>kind := T_BLOCK_MACRO, head := left s p, rest := mid s (p + 2)\<rparr>)
      else if startsWith s ''//'' then
        t\<lparr>kind := T_LINE_COMMENT, rest := mid s 2\<rparr>
      else if s = thematicQuotes \<or> s = ''---'' \<or> s = ''***'' then
        t\<lparr>kind := T_THEMATIC\<rparr>
      else if startsWith s ''<<<'' then
        t\<lparr>kind := T_PAGEBREAK, rest := trimmed (mid s 3)\<rparr>
      else
      (case markerRun s CHR ''='' of
         Some eqN \<Rightarrow> t\<lparr>kind := T_SECTION, level := eqN, rest := trimmed (mid s eqN)\<rparr>
       | None \<Rightarrow>
      (case markerRun s CHR ''*'' of
         Some starN \<Rightarrow> t\<lparr>kind := T_UL_ITEM, level := starN, rest := trimmed (mid s starN)\<rparr>
       | None \<Rightarrow>
      (case markerRun s CHR ''.'' of
         Some dotN \<Rightarrow> t\<lparr>kind := T_OL_ITEM, level := dotN, rest := trimmed (mid s dotN)\<rparr>
       | None \<Rightarrow>
      if s = ''+'' then t\<lparr>kind := T_LIST_CONT\<rparr>
      else if lastIndexOf s CHR '':'' \<ge> 1 \<and> endsWith s ''::'' \<and> trailingColons s \<ge> 2 then
        (let c = trailingColons s
         in t\<lparr>kind := T_DESC_TERM, level := c, rest := trimmed (left s (size_q s - c))\<rparr>)
      else if s = ''|==='' then t\<lparr>kind := T_TABLE_DELIM\<rparr>
      else if startsWith s ''|'' then t\<lparr>kind := T_TABLE_LINE, rest := line\<rparr>
      else if s = ''----'' then t\<lparr>kind := T_DELIM_LISTING\<rparr>
      else if s = ''....'' then t\<lparr>kind := T_DELIM_LITERAL\<rparr>
      else if s = ''____'' then t\<lparr>kind := T_DELIM_QUOTE\<rparr>
      else if s = ''===='' then t\<lparr>kind := T_DELIM_EXAMPLE\<rparr>
      else if s = ''****'' then t\<lparr>kind := T_DELIM_SIDEBAR\<rparr>
      else if s = ''--'' then t\<lparr>kind := T_DELIM_OPEN\<rparr>
      else if s = ''////'' then t\<lparr>kind := T_DELIM_COMMENT\<rparr>
      else if startsWith s ''NOTE:'' \<or> startsWith s ''TIP:'' \<or> startsWith s ''IMPORTANT:'' \<or>
              startsWith s ''CAUTION:'' \<or> startsWith s ''WARNING:'' then
        (let c = indexOf s '':'' 0
         in t\<lparr>kind := T_ADMONITION, head := left s c, rest := trimmed (mid s (c + 1))\<rparr>)
      else t\<lparr>kind := T_TEXT, rest := line\<rparr>))))"

fun classifyLines :: "string list \<Rightarrow> int \<Rightarrow> LineTok list" where
  "classifyLines [] n = []"
| "classifyLines (l # ls) n = classify l n # classifyLines ls (n + 1)"

text \<open>
  The lexer state. \<open>setInput\<close> appends one synthetic \<open>T_EOF\<close> token to the classified lines
  and \<open>peek\<close> clamps every index past the end to that last token. The record keeps the
  classified lines in \<open>dtoks\<close> and the line number of the appended token in \<open>eofLine\<close>, so
  that every value of the record is a token list that ends with the \<open>T_EOF\<close> token; \<open>dpos\<close>
  runs up to \<open>length dtoks + 1\<close> as in the source.
\<close>

record Lexer =
  dtoks :: "LineTok list"
  eofLine :: int
  dpos :: nat

definition setInput :: "string \<Rightarrow> Lexer" where
  "setInput txt =
     (let lines = splitChar txt (CHR 0x0A)
      in \<lparr>dtoks = classifyLines lines 1, eofLine = int (length lines) + 1, dpos = 0\<rparr>)"

definition peek :: "Lexer \<Rightarrow> nat \<Rightarrow> LineTok" where
  "peek lx k =
     (let idx = dpos lx + k
      in if idx < length (dtoks lx) then dtoks lx ! idx
         else newTok\<lparr>kind := T_EOF, lineNo := eofLine lx\<rparr>)"

definition takeTok :: "Lexer \<Rightarrow> LineTok \<times> Lexer" where
  \<comment> \<open>\<open>Lexer::take\<close>: the current token, and the position advanced unless it is past the
      appended token.\<close>
  "takeTok lx =
     (peek lx 0, if dpos lx < length (dtoks lx) + 1 then lx\<lparr>dpos := dpos lx + 1\<rparr> else lx)"

definition atEnd :: "Lexer \<Rightarrow> bool" where
  "atEnd lx \<longleftrightarrow> kind (peek lx 0) = T_EOF"

abbreviation la :: "Lexer \<Rightarrow> nat \<Rightarrow> LineTok" where
  "la lx k \<equiv> peek lx k"

abbreviation advance :: "Lexer \<Rightarrow> Lexer" where
  \<comment> \<open>\<open>take()\<close> with the token dropped.\<close>
  "advance lx \<equiv> snd (takeTok lx)"


section \<open>The document tree\<close>

datatype NodeKind =
    K_Document
  | K_Section | K_Paragraph | K_LiteralParagraph | K_AdmonitionParagraph
  | K_DelimitedBlock | K_List | K_ListItem | K_Table | K_TableRow | K_TableCell
  | K_BlockMacro | K_Directive | K_ThematicBreak | K_PageBreak | K_LineComment
  | K_Text | K_Space | K_LineBreak | K_Emph | K_Superscript | K_Subscript
  | K_Link | K_ImageInline | K_AnchorInline | K_Xref | K_AttrRef | K_InlineMacro
  | K_PassthroughInline

record SourcePos =
  line :: int
  column :: int

record ParseError = SourcePos +
  message :: string

record BlockMeta =
  anchorId :: string
  anchorText :: string
  title :: string
  attrs :: qmap
  roles :: "string list"

definition newBlockMeta :: BlockMeta where
  "newBlockMeta = \<lparr>anchorId = [], anchorText = [], title = [], attrs = [], roles = []\<rparr>"

text \<open>
  A node: its kind, position, optional metadata (the null pointer is \<open>None\<close>), the \<open>text\<close>,
  \<open>name\<close> and \<open>target\<close> payloads, the \<open>kv\<close> map and the children, in this order.
\<close>

datatype Node =
  Node (nkind: NodeKind) (pos: SourcePos) (meta: "BlockMeta option")
       (ntext: string) (name: string) (target: string) (kv: qmap) (children: "Node list")

definition at1 :: "int \<Rightarrow> SourcePos" where
  \<comment> \<open>\<open>SourcePos(lineNo, 1)\<close>.\<close>
  "at1 n = \<lparr>line = n, column = 1\<rparr>"

fun add :: "Node \<Rightarrow> Node \<Rightarrow> Node" where
  \<comment> \<open>\<open>p->add(n)\<close>.\<close>
  "add (Node k p m t nm tg kvs cs) n = Node k p m t nm tg kvs (cs @ [n])"

fun withChildren :: "Node \<Rightarrow> Node list \<Rightarrow> Node" where
  \<comment> \<open>\<open>n->children = cs\<close>.\<close>
  "withChildren (Node k p m t nm tg kvs _) cs = Node k p m t nm tg kvs cs"

fun kvInsert :: "Node \<Rightarrow> string \<Rightarrow> string \<Rightarrow> Node" where
  \<comment> \<open>\<open>n->kv.insert(key, v)\<close>.\<close>
  "kvInsert (Node k p m t nm tg kvs cs) key v = Node k p m t nm tg (qmapInsert key v kvs) cs"


section \<open>The inline scanner\<close>

text \<open>
  \<open>parseInlineContentRec\<close> is one loop over the positions of the string. At each position
  it tries the recognisers below in the order of the source; the first that applies
  appends a node and moves the position, and when none applies the character joins the
  running text. A recogniser answers the node without its children, the inner text that
  the source parses recursively for the children (if any) and the next position.
\<close>

datatype IMatch = IMatch (m_node: Node) (m_inner: "string option") (m_next: int)

definition pushText :: "string \<Rightarrow> int \<Rightarrow> Node list" where
  \<comment> \<open>What \<open>pushText(out, acc, lineNo)\<close> appends to \<open>out\<close>.\<close>
  "pushText t n = (if t = [] then [] else [Node K_Text (at1 n) None t [] [] [] []])"

definition isUrlSchemeStart :: "string \<Rightarrow> int \<Rightarrow> bool" where
  "isUrlSchemeStart s i \<longleftrightarrow>
     startsWith (mid s i) ''http:'' \<or> startsWith (mid s i) ''https:'' \<or>
     startsWith (mid s i) ''ftp:'' \<or> startsWith (mid s i) ''irc:'' \<or>
     startsWith (mid s i) ''mailto:''"

definition tryAttrRef :: "string \<Rightarrow> int \<Rightarrow> int \<Rightarrow> IMatch option" where
  "tryAttrRef s n i =
     (if at s i = CHR ''{'' then
        (let j = indexOf s ''}'' (i + 1)
         in if j > i + 1 then
              Some (IMatch (Node K_AttrRef (at1 n) None [] (trimmed (mid2 s (i + 1) (j - i - 1))) [] [] [])
                           None (j + 1))
            else None)
      else None)"

definition tryXref :: "string \<Rightarrow> int \<Rightarrow> int \<Rightarrow> IMatch option" where
  "tryXref s n i =
     (if i + 1 < size_q s \<and> at s i = CHR ''<'' \<and> at s (i + 1) = CHR ''<'' then
        (let j = indexOf s ''>>'' (i + 2)
         in if j > i + 2 then
              (let inner = mid2 s (i + 2) (j - (i + 2));
                   comma = indexOf inner '','' 0
               in if comma < 0 then
                    Some (IMatch (Node K_Xref (at1 n) None [] [] (trimmed inner) [] []) None (j + 2))
                  else
                    Some (IMatch (Node K_Xref (at1 n) None [] [] (trimmed (left inner comma)) [] [])
                                 (Some (trimmed (mid inner (comma + 1)))) (j + 2)))
            else None)
      else None)"

definition tryAnchor :: "string \<Rightarrow> int \<Rightarrow> int \<Rightarrow> IMatch option" where
  "tryAnchor s n i =
     (if i + 1 < size_q s \<and> at s i = CHR ''['' \<and> at s (i + 1) = CHR ''['' then
        (let j = indexOf s '']]'' (i + 2)
         in if j > i + 2 then
              (let inner = mid2 s (i + 2) (j - (i + 2));
                   comma = indexOf inner '','' 0
               in if comma < 0 then
                    Some (IMatch (Node K_AnchorInline (at1 n) None [] (trimmed inner) [] [] []) None (j + 2))
                  else
                    Some (IMatch (Node K_AnchorInline (at1 n) None [] (trimmed (left inner comma)) [] [] [])
                                 (Some (trimmed (mid inner (comma + 1)))) (j + 2)))
            else None)
      else None)"

definition urlEnd :: "string \<Rightarrow> int \<Rightarrow> int" where
  \<comment> \<open>The first position from \<open>i\<close> on that holds white space, \<open>[\<close> or \<open>]\<close>, or the size.\<close>
  "urlEnd s i =
     i + int (length (takeWhile (\<lambda>c. \<not> isSpace c \<and> c \<noteq> CHR ''['' \<and> c \<noteq> CHR '']'') (mid s i)))"

definition tryUrl :: "string \<Rightarrow> int \<Rightarrow> int \<Rightarrow> IMatch option" where
  "tryUrl s n i =
     (if isUrlSchemeStart s i then
        (let j = urlEnd s i
         in if j > i + 5 then
              Some (IMatch (Node K_Link (at1 n) None [] [] (mid2 s i (j - i)) [] []) None j)
            else None)
      else None)"

definition macroNameChar :: "char \<Rightarrow> bool" where
  "macroNameChar ch \<longleftrightarrow> isLetterOrNumber ch \<or> ch = CHR ''_'' \<or> ch = CHR ''-''"

definition tryMacro :: "string \<Rightarrow> int \<Rightarrow> int \<Rightarrow> IMatch option" where
  "tryMacro s n i =
     (let colon = indexOf s '':'' i
      in if colon > i then
           (let ok = list_all macroNameChar (mid2 s i (colon - i))
            in if ok \<and> colon + 1 < size_q s then
                 (let lb = indexOf s ''['' (colon + 1);
                      rb = indexOf s '']'' (lb + 1)
                  in if lb > colon \<and> rb > lb then
                       Some (IMatch (Node K_InlineMacro (at1 n) None [] (mid2 s i (colon - i))
                                          (mid2 s (colon + 1) (lb - (colon + 1))) [] [])
                                    (Some (mid2 s (lb + 1) (rb - (lb + 1)))) (rb + 1))
                     else None)
               else None)
         else None)"

definition tryPair :: "string \<Rightarrow> int \<Rightarrow> string \<Rightarrow> (string \<Rightarrow> Node \<times> string option) \<Rightarrow> IMatch option" where
  \<comment> \<open>The shape shared by the emphasis and passthrough cases: the marker \<open>mk\<close> stands at
      \<open>i\<close>, its next occurrence \<open>j\<close> after it encloses a non-empty inner text, and the
      scan goes on behind the closing marker.\<close>
  "tryPair s i mk build =
     (if mid2 s i (size_q mk) = mk then
        (let j = indexOf s mk (i + size_q mk)
         in if j > i + size_q mk then
              (case build (mid2 s (i + size_q mk) (j - (i + size_q mk))) of
                 (nd, inner) \<Rightarrow> Some (IMatch nd inner (j + size_q mk)))
            else None)
      else None)"

definition emphRec :: "int \<Rightarrow> string \<Rightarrow> string \<Rightarrow> Node \<times> string option" where
  \<comment> \<open>An \<open>Emph\<close> node named \<open>nm\<close> whose children are the inner text parsed again.\<close>
  "emphRec n nm inner = (Node K_Emph (at1 n) None [] nm [] [] [], Some inner)"

definition rawText :: "NodeKind \<Rightarrow> int \<Rightarrow> string \<Rightarrow> string \<Rightarrow> Node \<times> string option" where
  \<comment> \<open>A node that keeps the inner text as its \<open>text\<close>, unparsed.\<close>
  "rawText k n nm inner = (Node k (at1 n) None inner nm [] [] [], None)"

definition plusRun :: "string \<Rightarrow> int \<Rightarrow> int" where
  \<comment> \<open>\<open>plusN\<close>: the length of the run of \<open>+\<close> that starts at \<open>i\<close>.\<close>
  "plusRun s i = int (length (takeWhile (\<lambda>c. c = CHR ''+'') (mid s i)))"

definition tryPassthrough :: "string \<Rightarrow> int \<Rightarrow> int \<Rightarrow> IMatch option" where
  "tryPassthrough s n i =
     (if at s i = CHR ''+'' then
        (let plusN = plusRun s i
         in if plusN \<ge> 1 \<and> plusN \<le> 3 then
              tryPair s i (replicate (nat plusN) (CHR ''+''))
                (\<lambda>inner. (Node K_PassthroughInline (at1 n) None [] [] []
                                [(''plusN'', number plusN)] [], Some inner))
            else None)
      else None)"

fun firstMatch :: "IMatch option list \<Rightarrow> IMatch option" where
  "firstMatch [] = None"
| "firstMatch (Some m # _) = Some m"
| "firstMatch (None # ms) = firstMatch ms"

definition matchAt :: "string \<Rightarrow> int \<Rightarrow> int \<Rightarrow> IMatch option" where
  "matchAt s n i =
     firstMatch
       [tryAttrRef s n i,
        tryXref s n i,
        tryAnchor s n i,
        tryUrl s n i,
        tryMacro s n i,
        tryPair s i ''**'' (emphRec n ''bold''),
        tryPair s i ''*'' (emphRec n ''bold''),
        tryPair s i ''__'' (emphRec n ''italic''),
        tryPair s i ''_'' (emphRec n ''italic''),
        tryPair s i ''``'' (emphRec n ''mono''),
        tryPair s i ''`'' (rawText K_Emph n ''mono''),
        tryPair s i ''#'' (emphRec n ''highlight''),
        tryPair s i ''^'' (rawText K_Superscript n []),
        tryPair s i ''~'' (rawText K_Subscript n []),
        tryPassthrough s n i]"


subsection \<open>Occurrences of a marker in a string\<close>

text \<open>
  The scanner closes a paired construct at the first occurrence of its closing marker, so
  the enclosed text holds no occurrence of that marker. The lemmas below make this
  precise; the termination of the scanner and the bound on its recursion depth rest on it.
\<close>

definition hasSub :: "string \<Rightarrow> string \<Rightarrow> bool" where
  "hasSub p s \<longleftrightarrow> findFirst p s \<noteq> None"

definition occursAt :: "string \<Rightarrow> string \<Rightarrow> nat \<Rightarrow> bool" where
  "occursAt p s k \<longleftrightarrow> k + length p \<le> length s \<and> take (length p) (drop k s) = p"

lemma findFirst_Some:
  "findFirst p s = Some k \<Longrightarrow> occursAt p s k \<and> (\<forall>k' < k. \<not> occursAt p s k')"
proof (induction s arbitrary: k)
  case Nil
  then show ?case by (auto simp: occursAt_def split: if_splits)
next
  case (Cons c cs)
  show ?case
  proof (cases "take (length p) (c # cs) = p")
    case True
    with Cons.prems have "k = 0" by simp
    moreover have "length (take (length p) (c # cs)) \<le> length (c # cs)"
      by simp
    with True have "length p \<le> length (c # cs)"
      by simp
    ultimately show ?thesis using True
      by (simp add: occursAt_def)
  next
    case False
    with Cons.prems obtain k0 where k0: "findFirst p cs = Some k0" "k = Suc k0" by auto
    from Cons.IH[OF k0(1)] have ih: "occursAt p cs k0" "\<forall>k' < k0. \<not> occursAt p cs k'" by auto
    have "occursAt p (c # cs) k" using ih(1) k0(2) by (simp add: occursAt_def)
    moreover have "\<not> occursAt p (c # cs) k'" if "k' < k" for k'
    proof (cases k')
      case 0
      then show ?thesis using False by (simp add: occursAt_def)
    next
      case (Suc k'')
      then show ?thesis using ih(2) that k0(2) by (simp add: occursAt_def)
    qed
    ultimately show ?thesis by blast
  qed
qed

lemma findFirst_None:
  "findFirst p s = None \<Longrightarrow> \<not> occursAt p s k"
proof (induction s arbitrary: k)
  case Nil
  then show ?case by (auto simp: occursAt_def split: if_splits)
next
  case (Cons c cs)
  from Cons.prems have a: "take (length p) (c # cs) \<noteq> p" and b: "findFirst p cs = None"
    by (auto split: if_splits)
  show ?case
  proof (cases k)
    case 0
    then show ?thesis using a by (simp add: occursAt_def)
  next
    case (Suc k')
    then show ?thesis using Cons.IH[OF b, of k'] by (simp add: occursAt_def)
  qed
qed

lemma hasSub_iff: "hasSub p s \<longleftrightarrow> (\<exists>k. occursAt p s k)"
  unfolding hasSub_def
  by (metis findFirst_None findFirst_Some not_None_eq)

lemma occursAt_slice:
  assumes h: "occursAt p (take n (drop a s)) k" and ne: "p \<noteq> []"
  shows "occursAt p s (a + k)"
proof -
  from h have len: "k + length p \<le> min n (length s - a)" and eq: "take (length p) (drop k (take n (drop a s))) = p"
    by (simp_all add: occursAt_def)
  from len have "length p \<le> n - k" by linarith
  then have "take (length p) (drop k (take n (drop a s))) = take (length p) (drop (a + k) s)"
    by (simp add: drop_take min_def add.commute)
  moreover from len ne have "a + k + length p \<le> length s"
    by (cases p) auto
  ultimately show ?thesis using eq by (simp add: occursAt_def)
qed

lemma hasSub_slice: "hasSub p (take n (drop a s)) \<Longrightarrow> p \<noteq> [] \<Longrightarrow> hasSub p s"
  unfolding hasSub_iff using occursAt_slice by blast

lemma trimmed_slice: "\<exists>a n. trimmed s = take n (drop a s)"
proof -
  have a: "\<And>xs::string. \<exists>a. dropWhile isSpace xs = drop a xs"
    by (metis dropWhile_eq_drop)
  have b: "\<And>xs::string. \<exists>n. rev (dropWhile isSpace (rev xs)) = take n xs"
    by (metis a rev_drop rev_rev_ident[of "xs" for xs] length_rev)
  show ?thesis unfolding trimmed_def using a b by metis
qed

lemma hasSub_trimmed: "hasSub p (trimmed s) \<Longrightarrow> p \<noteq> [] \<Longrightarrow> hasSub p s"
  using trimmed_slice hasSub_slice by metis

lemma length_trimmed: "length (trimmed s) \<le> length s"
  using trimmed_slice[of s] by (auto simp: min_def)

lemma indexOf_found:
  assumes "indexOf s p from = j" "0 \<le> j" "0 \<le> from"
  shows "from \<le> j \<and> occursAt p s (nat j) \<and> (\<forall>k. nat from \<le> k \<and> k < nat j \<longrightarrow> \<not> occursAt p s k)"
proof -
  from assms obtain k where k: "findFirst p (drop (nat from) s) = Some k" "j = int (nat from + k)"
    and le: "from \<le> size_q s"
    by (auto simp: indexOf_def split: if_splits option.splits)
  from findFirst_Some[OF k(1)] have occ: "occursAt p (drop (nat from) s) k"
    and first: "\<forall>k' < k. \<not> occursAt p (drop (nat from) s) k'" by auto
  have 1: "occursAt p s (nat from + k)"
    using occ le by (auto simp: occursAt_def size_q_def add.commute)
  have 2: "\<not> occursAt p s k'" if "nat from \<le> k'" "k' < nat from + k" for k'
  proof -
    from that have "k' - nat from < k" by linarith
    with first have "\<not> occursAt p (drop (nat from) s) (k' - nat from)" by blast
    then show ?thesis using that le by (auto simp: occursAt_def size_q_def add.commute)
  qed
  have "nat j = nat from + k" unfolding k(2) by (rule nat_int)
  then show ?thesis using 1 2 k(2) assms(3) by auto
qed



definition isSlice :: "string \<Rightarrow> string \<Rightarrow> bool" where
  "isSlice t s \<longleftrightarrow> (\<exists>a n. t = take n (drop a s))"

lemma isSlice_refl: "isSlice s s"
  unfolding isSlice_def by (metis drop0 take_all order_refl)

lemma isSlice_trans: "isSlice t u \<Longrightarrow> isSlice u s \<Longrightarrow> isSlice t s"
proof -
  assume "isSlice t u" "isSlice u s"
  then obtain a n b m where t: "t = take n (drop a u)" and u: "u = take m (drop b s)"
    unfolding isSlice_def by blast
  have "t = take (min n (m - a)) (drop (a + b) s)"
    unfolding t u by (simp add: drop_take add.commute)
  then show ?thesis unfolding isSlice_def by blast
qed

lemma isSlice_take_drop: "isSlice (take n (drop a s)) s"
  unfolding isSlice_def by blast

lemma isSlice_trimmed: "isSlice (trimmed s) s"
  unfolding isSlice_def by (rule trimmed_slice)

lemma isSlice_mid2: "isSlice (mid2 s a n) s"
  unfolding mid2_def by (rule isSlice_take_drop)

lemma isSlice_mid: "isSlice (mid s a) s"
  unfolding mid_def isSlice_def by (metis take_all order_refl)

lemma isSlice_left: "isSlice (left s n) s"
  unfolding left_def isSlice_def by (metis drop0)

lemma isSlice_length: "isSlice t s \<Longrightarrow> length t \<le> length s"
  unfolding isSlice_def by auto

lemma isSlice_hasSub: "isSlice t s \<Longrightarrow> hasSub p t \<Longrightarrow> p \<noteq> [] \<Longrightarrow> hasSub p s"
  unfolding isSlice_def using hasSub_slice by blast

lemma length_mid2: "length (mid2 s a n) \<le> length s - nat a"
  unfolding mid2_def by simp

lemma indexOf_hasSub:
  "indexOf s p from = j \<Longrightarrow> 0 \<le> j \<Longrightarrow> 0 \<le> from \<Longrightarrow> hasSub p s"
  using indexOf_found hasSub_iff by blast

lemma indexOf_slice_free:
  assumes idx: "indexOf s p from = j" and f: "0 \<le> from" "from \<le> from2" "from2 \<le> j"
    and ne: "p \<noteq> []"
  shows "\<not> hasSub p (mid2 s from2 (j - from2))"
proof
  assume "hasSub p (mid2 s from2 (j - from2))"
  then obtain k where k: "occursAt p (take (nat (j - from2)) (drop (nat from2) s)) k"
    unfolding hasSub_iff mid2_def by blast
  from k have kl: "k + length p \<le> nat (j - from2)"
    by (simp add: occursAt_def)
  from occursAt_slice[OF k ne] have occ: "occursAt p s (nat from2 + k)" .
  from ne have "length p > 0" by simp
  with kl f have "nat from \<le> nat from2 + k" "nat from2 + k < nat j" by linarith+
  moreover from f have "0 \<le> j" by linarith
  ultimately show False using indexOf_found[OF idx _ f(1)] occ by blast
qed

definition markers :: "string list" where
  "markers = [''**'', ''*'', ''__'', ''_'', ''``'', ''#'', ''+++'', ''++'', ''+'', '']]'', '']'', ''>>'']"

definition phi :: "string \<Rightarrow> nat" where
  "phi s = length (filter (\<lambda>p. hasSub p s) markers)"

definition shrinks :: "string \<Rightarrow> string \<Rightarrow> bool" where
  "shrinks s t \<longleftrightarrow> length t < length s \<and> phi t < phi s"

lemma filter_length_less:
  "(\<forall>x\<in>set xs. P x \<longrightarrow> Q x) \<Longrightarrow> x \<in> set xs \<Longrightarrow> Q x \<Longrightarrow> \<not> P x \<Longrightarrow>
   length (filter P xs) < length (filter Q xs)"
proof (induction xs)
  case Nil
  then show ?case by simp
next
  case (Cons y ys)
  have mono: "length (filter P ys) \<le> length (filter Q ys)"
    using Cons.prems(1) by (induction ys) auto
  show ?case
  proof (cases "x = y")
    case True
    then show ?thesis using Cons.prems mono by simp
  next
    case False
    then have "length (filter P ys) < length (filter Q ys)"
      using Cons by simp
    then show ?thesis using Cons.prems(1) by simp
  qed
qed

lemma markers_nonempty: "p \<in> set markers \<Longrightarrow> p \<noteq> []"
  by (auto simp: markers_def)

lemma phi_le: "phi s \<le> 12"
proof -
  have "phi s \<le> length markers" unfolding phi_def by (rule length_filter_le)
  then show ?thesis by (simp add: markers_def)
qed

lemma shrinksI:
  assumes "isSlice t s" "p \<in> set markers" "hasSub p s" "\<not> hasSub p t" "length t < length s"
  shows "shrinks s t"
proof -
  have "\<forall>q\<in>set markers. hasSub q t \<longrightarrow> hasSub q s"
    using assms(1) isSlice_hasSub markers_nonempty by blast
  then have "phi t < phi s"
    unfolding phi_def using assms(2,3,4) by (rule filter_length_less)
  with assms(5) show ?thesis by (simp add: shrinks_def)
qed



lemma enclosed_shrinks:
  \<comment> \<open>the text enclosed before the first closing marker no longer holds that marker\<close>
  assumes idx: "indexOf s p from = j" and f: "0 < from" "from \<le> j" and sz: "0 < length s"
    and p: "p \<in> set markers" and t: "isSlice t (mid2 s from (j - from))"
  shows "shrinks s t"
proof -
  let ?inner = "mid2 s from (j - from)"
  have ne: "p \<noteq> []" using p by (rule markers_nonempty)
  have "\<not> hasSub p ?inner"
    using indexOf_slice_free[OF idx _ _ f(2) ne] f(1) by simp
  then have 1: "\<not> hasSub p t" using isSlice_hasSub[OF t _ ne] by blast
  have 2: "hasSub p s" using indexOf_hasSub[OF idx] f by simp
  have "length ?inner \<le> length s - nat from" by (rule length_mid2)
  with f(1) sz have "length ?inner < length s" by linarith
  with isSlice_length[OF t] have 3: "length t < length s" by simp
  have 4: "isSlice t s" using t isSlice_mid2 isSlice_trans by blast
  show ?thesis using shrinksI[OF 4 p 2 1 3] .
qed

lemma tryAttrRef_ok:
  "tryAttrRef s n i = Some m \<Longrightarrow> i < m_next m \<and> m_inner m = None"
  by (auto simp: tryAttrRef_def Let_def split: if_splits)

lemma tryUrl_ok:
  "tryUrl s n i = Some m \<Longrightarrow> i < m_next m \<and> m_inner m = None"
  by (auto simp: tryUrl_def Let_def split: if_splits)

lemma tryXref_ok:
  assumes "tryXref s n i = Some m" "0 \<le> i"
  shows "i < m_next m \<and> (\<forall>t. m_inner m = Some t \<longrightarrow> shrinks s t)"
proof -
  let ?j = "indexOf s ''>>'' (i + 2)"
  let ?inner = "mid2 s (i + 2) (?j - (i + 2))"
  from assms(1) have g: "i + 1 < size_q s" "?j > i + 2"
    by (auto simp: tryXref_def Let_def split: if_splits)
  from g assms(2) have pos: "0 < length s" by (cases s) (auto simp: size_q_def)
  have sh: "shrinks s t" if "isSlice t ?inner" for t
    using enclosed_shrinks[of s "''>>''" "i + 2" ?j t] that g assms(2) pos
    by (simp add: markers_def)
  have "isSlice (trimmed (mid ?inner c)) ?inner" for c
    using isSlice_trimmed isSlice_mid isSlice_trans by blast
  with sh have "shrinks s (trimmed (mid ?inner c))" for c by blast
  with assms(1) g show ?thesis
    by (auto simp: tryXref_def Let_def split: if_splits)
qed

lemma tryAnchor_ok:
  assumes "tryAnchor s n i = Some m" "0 \<le> i"
  shows "i < m_next m \<and> (\<forall>t. m_inner m = Some t \<longrightarrow> shrinks s t)"
proof -
  let ?j = "indexOf s '']]'' (i + 2)"
  let ?inner = "mid2 s (i + 2) (?j - (i + 2))"
  from assms(1) have g: "i + 1 < size_q s" "?j > i + 2"
    by (auto simp: tryAnchor_def Let_def split: if_splits)
  from g assms(2) have pos: "0 < length s" by (cases s) (auto simp: size_q_def)
  have sh: "shrinks s t" if "isSlice t ?inner" for t
    using enclosed_shrinks[of s "'']]''" "i + 2" ?j t] that g assms(2) pos
    by (simp add: markers_def)
  have "isSlice (trimmed (mid ?inner c)) ?inner" for c
    using isSlice_trimmed isSlice_mid isSlice_trans by blast
  with sh have "shrinks s (trimmed (mid ?inner c))" for c by blast
  with assms(1) g show ?thesis
    by (auto simp: tryAnchor_def Let_def split: if_splits)
qed

lemma tryMacro_ok:
  assumes "tryMacro s n i = Some m" "0 \<le> i"
  shows "i < m_next m \<and> (\<forall>t. m_inner m = Some t \<longrightarrow> shrinks s t)"
proof -
  let ?colon = "indexOf s '':'' i"
  let ?lb = "indexOf s ''['' (?colon + 1)"
  let ?rb = "indexOf s '']'' (?lb + 1)"
  from assms(1) have g: "?colon > i" "?colon + 1 < size_q s" "?lb > ?colon" "?rb > ?lb"
    and m: "m_next m = ?rb + 1" "m_inner m = Some (mid2 s (?lb + 1) (?rb - (?lb + 1)))"
    by (auto simp: tryMacro_def Let_def split: if_splits)
  from g assms(2) have pos: "0 < length s" by (cases s) (auto simp: size_q_def)
  have "shrinks s (mid2 s (?lb + 1) (?rb - (?lb + 1)))"
    using enclosed_shrinks[of s "'']''" "?lb + 1" ?rb, OF refl _ _ _ _ isSlice_refl] g assms(2) pos
    by (simp add: markers_def)
  with m g assms(2) show ?thesis by auto
qed

lemma tryPair_ok:
  assumes "tryPair s i mk build = Some m" "0 \<le> i" "i < size_q s" "mk \<in> set markers"
  shows "i < m_next m \<and>
         (\<exists>inner. (m_node m, m_inner m) = build inner \<and> shrinks s inner)"
proof -
  let ?k = "size_q mk"
  let ?j = "indexOf s mk (i + ?k)"
  let ?inner = "mid2 s (i + ?k) (?j - (i + ?k))"
  have k: "0 < ?k" using markers_nonempty[OF assms(4)] by (simp add: size_q_def)
  from assms(1) have g: "?j > i + ?k" and m: "m_next m = ?j + ?k" "(m_node m, m_inner m) = build ?inner"
    by (auto simp: tryPair_def Let_def split: if_splits prod.splits)
  from assms(2,3) have pos: "0 < length s" by (cases s) (auto simp: size_q_def)
  from k assms(2) have ik: "0 < i + ?k" by linarith
  from g have jk: "i + ?k \<le> ?j" by linarith
  have "shrinks s ?inner"
    using enclosed_shrinks[of s mk "i + ?k" ?j, OF refl ik jk pos assms(4) isSlice_refl] .
  with m g k show ?thesis by auto
qed

lemma tryPair_next:
  assumes "tryPair s i mk build = Some m"
  shows "i < m_next m"
proof -
  have "0 \<le> size_q mk" by (simp add: size_q_def)
  with assms show ?thesis
    by (auto simp: tryPair_def Let_def split: if_splits prod.splits)
qed

lemma tryPair_raw:
  "tryPair s i mk (rawText k n nm) = Some m \<Longrightarrow> m_inner m = None"
  by (auto simp: tryPair_def Let_def rawText_def split: if_splits)

lemma tryPair_emph:
  assumes "tryPair s i mk (emphRec n nm) = Some m" "0 \<le> i" "i < size_q s" "mk \<in> set markers"
  shows "i < m_next m \<and> (\<forall>t. m_inner m = Some t \<longrightarrow> shrinks s t)"
  using tryPair_ok[OF assms] by (auto simp: emphRec_def)

lemma tryPassthrough_ok:
  assumes "tryPassthrough s n i = Some m" "0 \<le> i" "i < size_q s"
  shows "i < m_next m \<and> (\<forall>t. m_inner m = Some t \<longrightarrow> shrinks s t)"
proof -
  let ?n = "plusRun s i"
  let ?b = "\<lambda>inner. (Node K_PassthroughInline (at1 n) None [] [] [] [(''plusN'', number ?n)] [], Some inner)"
  from assms(1) have g: "?n \<ge> 1" "?n \<le> 3"
    and p: "tryPair s i (replicate (nat ?n) (CHR ''+'')) ?b = Some m"
    by (auto simp: tryPassthrough_def Let_def split: if_splits)
  from g have "nat ?n = 1 \<or> nat ?n = 2 \<or> nat ?n = 3" by linarith
  then have "replicate (nat ?n) (CHR ''+'') \<in> set markers"
    by (auto simp: markers_def numeral_2_eq_2 numeral_3_eq_3)
  from tryPair_ok[OF p assms(2,3) this] show ?thesis by auto
qed

lemma firstMatch_Some: "firstMatch ms = Some m \<Longrightarrow> Some m \<in> set ms"
  by (induction ms rule: firstMatch.induct) auto

lemma matchAt_ok:
  assumes "matchAt s n i = Some m" "0 \<le> i" "i < size_q s"
  shows "i < m_next m \<and> (\<forall>t. m_inner m = Some t \<longrightarrow> shrinks s t)"
proof -
  have mk: "''**'' \<in> set markers" "''*'' \<in> set markers" "''__'' \<in> set markers"
    "''_'' \<in> set markers" "''``'' \<in> set markers" "''#'' \<in> set markers"
    by (simp_all add: markers_def)
  from firstMatch_Some[OF assms(1)[unfolded matchAt_def]]
  consider "tryAttrRef s n i = Some m" | "tryXref s n i = Some m" | "tryAnchor s n i = Some m"
    | "tryUrl s n i = Some m" | "tryMacro s n i = Some m"
    | mk nm where "tryPair s i mk (emphRec n nm) = Some m" "mk \<in> set markers"
    | mk k nm where "tryPair s i mk (rawText k n nm) = Some m"
    | "tryPassthrough s n i = Some m"
    using mk by (simp only: set_simps insert_iff empty_iff) metis
  then show ?thesis
  proof cases
    case 1 then show ?thesis using tryAttrRef_ok by simp
  next
    case 2 then show ?thesis using tryXref_ok assms(2) by blast
  next
    case 3 then show ?thesis using tryAnchor_ok assms(2) by blast
  next
    case 4 then show ?thesis using tryUrl_ok by simp
  next
    case 5 then show ?thesis using tryMacro_ok assms(2) by blast
  next
    case 6 then show ?thesis using tryPair_emph assms(2,3) by blast
  next
    case 7 then show ?thesis using tryPair_next tryPair_raw by simp
  next
    case 8 then show ?thesis using tryPassthrough_ok assms(2,3) by blast
  qed
qed

text \<open>
  The loop of \<open>parseInlineContentRec\<close> from position \<open>i\<close> on, with the running text
  \<open>acc\<close>. The list \<open>out\<close> of the source is only ever appended to, so the function answers
  the nodes appended from \<open>i\<close> on. The \<open>depth\<close> argument is passed down as in the source,
  where no branch reads it; the second component of the result records the largest
  \<open>depth\<close> with which the function was entered. The position \<open>i\<close> starts at 0 and only
  grows.
\<close>

definition combine :: "string \<Rightarrow> int \<Rightarrow> Node \<Rightarrow> Node list \<times> nat \<Rightarrow> Node list \<times> nat \<Rightarrow> Node list \<times> nat" where
  "combine acc n nd inner rst =
     (pushText acc n @ [withChildren nd (fst inner)] @ fst rst, max (snd inner) (snd rst))"

function parseInlineFrom :: "string \<Rightarrow> int \<Rightarrow> nat \<Rightarrow> int \<Rightarrow> string \<Rightarrow> Node list \<times> nat" where
  "parseInlineFrom s n depth i acc =
     (if 0 \<le> i \<and> i < size_q s then
        (case matchAt s n i of
           Some m \<Rightarrow>
             combine acc n (m_node m)
               (case m_inner m of
                  None \<Rightarrow> ([], depth)
                | Some t \<Rightarrow> parseInlineFrom t n (depth + 1) 0 [])
               (parseInlineFrom s n depth (m_next m) [])
         | None \<Rightarrow> parseInlineFrom s n depth (i + 1) (acc @ [at s i]))
      else (pushText acc n, depth))"
  by pat_completeness auto
termination
proof (relation "measures [\<lambda>(s, n, d, i, acc). length s, \<lambda>(s, n, d, i, acc). nat (size_q s - i)]",
       goal_cases)
  case 1
  show ?case by simp
next
  case 2
  then show ?case by auto
next
  case 3
  from matchAt_ok[OF 3(2)] 3 show ?case by (auto simp: shrinks_def)
next
  case 4
  from matchAt_ok[OF 4(2)] 4 show ?case by (auto simp: shrinks_def)
qed

declare parseInlineFrom.simps [simp del]

definition parseInlineContentRec :: "string \<Rightarrow> int \<Rightarrow> nat \<Rightarrow> Node list" where
  "parseInlineContentRec s n depth = fst (parseInlineFrom s n depth 0 [])"

definition parseInlineContent :: "string \<Rightarrow> int \<Rightarrow> Node list" where
  "parseInlineContent s n = parseInlineContentRec s n 0"

definition inlineDepth :: "string \<Rightarrow> int \<Rightarrow> nat" where
  \<comment> \<open>The largest \<open>depth\<close> argument among all calls of \<open>parseInlineContentRec\<close> made
      while \<open>parseInlineContent s n\<close> runs.\<close>
  "inlineDepth s n = snd (parseInlineFrom s n 0 0 [])"


section \<open>The block parser\<close>

subsection \<open>Results, errors and token helpers\<close>

text \<open>
  \<open>Parser::error\<close> records the error and throws; \<open>Parser::parse\<close> catches it and returns a
  null tree. A function that can throw returns \<open>ParseError + 'a\<close>, with \<open>Inl\<close> for the error.
\<close>

definition error :: "string \<Rightarrow> int \<Rightarrow> int \<Rightarrow> ParseError" where
  "error msg row col = \<lparr>line = row, column = col, message = msg\<rparr>"

lemma peek_not_eof: "kind (peek lx 0) \<noteq> T_EOF \<Longrightarrow> dpos lx < length (dtoks lx)"
  by (auto simp: peek_def Let_def newTok_def split: if_splits)

lemma advance_decreases:
  "kind (peek lx 0) \<noteq> T_EOF \<Longrightarrow>
   length (dtoks (advance lx)) - dpos (advance lx) < length (dtoks lx) - dpos lx"
  using peek_not_eof[of lx] by (auto simp: takeTok_def)

function skipBlankAndLineComments :: "Lexer \<Rightarrow> Lexer" where
  "skipBlankAndLineComments lx =
     (if kind (la lx 0) = T_BLANK \<or> kind (la lx 0) = T_LINE_COMMENT
      then skipBlankAndLineComments (advance lx)
      else lx)"
  by pat_completeness auto
termination
  by (relation "measure (\<lambda>lx. length (dtoks lx) - dpos lx)") (auto intro: advance_decreases)

declare skipBlankAndLineComments.simps [simp del]

definition expect :: "Kind \<Rightarrow> string \<Rightarrow> Lexer \<Rightarrow> ParseError + Lexer" where
  \<comment> \<open>\<open>accept\<close> takes the token when its kind is \<open>k\<close>; otherwise \<open>expect\<close> throws.\<close>
  "expect k what lx =
     (if kind (la lx 0) = k then Inr (advance lx)
      else Inl (error (''Expected '' @ what) (lineNo (la lx 0)) 1))"

definition stripOuter :: "string \<Rightarrow> char \<Rightarrow> char \<Rightarrow> string" where
  "stripOuter s a b =
     (let t = trimmed s
      in if size_q t \<ge> 2 \<and> at t 0 = a \<and> at t (size_q t - 1) = b
         then mid2 t 1 (size_q t - 2)
         else t)"

definition attrEntry :: "qmap \<Rightarrow> string \<Rightarrow> qmap" where
  \<comment> \<open>One round of the loop of \<open>parseAttrList\<close>, on the part \<open>part\<close>.\<close>
  "attrEntry m part =
     (let p = trimmed part
      in if p = [] then m
         else (let eq = indexOf p ''='' 0
               in if eq < 0 then qmapInsert p [] m
                  else (let k = trimmed (left p eq);
                            v = trimmed (mid p (eq + 1))
                        in qmapInsert k (stripOuter v (CHR 0x22) (CHR 0x22)) m)))"

definition parseAttrList :: "string \<Rightarrow> qmap" where
  "parseAttrList bracketed =
     (let inner = stripOuter (trimmed bracketed) (CHR ''['') (CHR '']'');
          parts = filter (\<lambda>p. p \<noteq> []) (splitChar inner (CHR '',''))
      in foldl attrEntry [] parts)"


subsection \<open>Block metadata and the document header\<close>

definition metaAnchor :: "BlockMeta \<Rightarrow> Lexer \<Rightarrow> BlockMeta \<times> Lexer" where
  "metaAnchor m lx =
     (if kind (la lx 0) = T_BLOCK_ANCHOR then
        (let s = rest (la lx 0);
             inner = stripOuter (stripOuter s (CHR ''['') (CHR '']'')) (CHR ''['') (CHR '']'');
             comma = indexOf inner '','' 0
         in if comma < 0 then (m\<lparr>anchorId := trimmed inner\<rparr>, advance lx)
            else (m\<lparr>anchorId := trimmed (left inner comma),
                    anchorText := trimmed (mid inner (comma + 1))\<rparr>, advance lx))
      else (m, lx))"

definition metaAttrs :: "BlockMeta \<Rightarrow> Lexer \<Rightarrow> BlockMeta \<times> Lexer" where
  "metaAttrs m lx =
     (if kind (la lx 0) = T_BLOCK_ATTRS then
        (let a = parseAttrList (rest (la lx 0));
             as = foldl (\<lambda>acc (k, v). qmapInsert k v acc) (attrs m) a;
             rs = map (\<lambda>(k, v). mid k 1) (filter (\<lambda>(k, v). startsWith k ''.'') as)
         in (m\<lparr>attrs := as, roles := roles m @ rs\<rparr>, advance lx))
      else (m, lx))"

definition metaTitle :: "BlockMeta \<Rightarrow> Lexer \<Rightarrow> BlockMeta \<times> Lexer" where
  "metaTitle m lx =
     (if kind (la lx 0) = T_BLOCK_TITLE
      then (m\<lparr>title := trimmed (rest (la lx 0))\<rparr>, advance lx)
      else (m, lx))"

definition parseBlockMetaOpt :: "Lexer \<Rightarrow> BlockMeta option \<times> Lexer" where
  "parseBlockMetaOpt lx =
     (if kind (la lx 0) \<noteq> T_BLOCK_ANCHOR \<and> kind (la lx 0) \<noteq> T_BLOCK_ATTRS \<and>
         kind (la lx 0) \<noteq> T_BLOCK_TITLE
      then (None, lx)
      else (case metaAnchor newBlockMeta lx of (m1, lx1) \<Rightarrow>
            case metaAttrs m1 lx1 of (m2, lx2) \<Rightarrow>
            case metaTitle m2 lx2 of (m3, lx3) \<Rightarrow> (Some m3, lx3)))"

definition headerTitle :: "Node \<Rightarrow> Lexer \<Rightarrow> Node \<times> Lexer" where
  "headerTitle doc lx =
     (if kind (la lx 0) = T_SECTION \<and> level (la lx 0) = 1 then
        (let t = la lx 0
         in (kvInsert (kvInsert doc ''title'' (rest t)) ''titleLine'' (number (lineNo t)),
             skipBlankAndLineComments (advance lx)))
      else (doc, lx))"

definition headerAuthor :: "Node \<Rightarrow> Lexer \<Rightarrow> Node \<times> Lexer" where
  "headerAuthor doc lx =
     (if kind (la lx 0) = T_TEXT then
        (let s = trimmed (raw (la lx 0))
         in if contains s (CHR ''<'') \<and> contains s (CHR ''>'') then
              (kvInsert (kvInsert doc ''authorLine'' s) ''authorLineNo'' (number (lineNo (la lx 0))),
               skipBlankAndLineComments (advance lx))
            else (doc, lx))
      else (doc, lx))"

definition headerRevision :: "Node \<Rightarrow> Lexer \<Rightarrow> Node \<times> Lexer" where
  "headerRevision doc lx =
     (if kind (la lx 0) = T_TEXT then
        (let s = trimmed (raw (la lx 0))
         in if startsWith s ''v'' then
              (kvInsert (kvInsert doc ''revisionLine'' s) ''revisionLineNo'' (number (lineNo (la lx 0))),
               skipBlankAndLineComments (advance lx))
            else (doc, lx))
      else (doc, lx))"

function headerAttrs :: "Node \<Rightarrow> Lexer \<Rightarrow> Node \<times> Lexer" where
  \<comment> \<open>The loop over the document attributes \<open>:name: value\<close>.\<close>
  "headerAttrs doc lx =
     (if kind (la lx 0) = T_TEXT then
        (let s = trimmed (raw (la lx 0))
         in if \<not> startsWith s '':'' then (doc, lx)
            else (let second = indexOf s '':'' 1
                  in if second \<le> 1 then (doc, lx)
                     else headerAttrs
                            (kvInsert doc (''attr:'' @ trimmed (mid2 s 1 (second - 1)))
                                          (trimmed (mid s (second + 1))))
                            (advance lx)))
      else (doc, lx))"
  by pat_completeness auto
termination
  by (relation "measure (\<lambda>(doc, lx). length (dtoks lx) - dpos lx)") (auto intro: advance_decreases)

declare headerAttrs.simps [simp del]

definition parseDocumentHeader :: "Node \<Rightarrow> Lexer \<Rightarrow> Node \<times> Lexer" where
  "parseDocumentHeader doc lx =
     (case headerTitle doc lx of (d1, lx1) \<Rightarrow>
      case headerAuthor d1 lx1 of (d2, lx2) \<Rightarrow>
      case headerRevision d2 lx2 of (d3, lx3) \<Rightarrow> headerAttrs d3 lx3)"


subsection \<open>Blocks that hold no nested blocks\<close>

definition parseAdmonitionParagraph :: "BlockMeta option \<Rightarrow> Lexer \<Rightarrow> Node \<times> Lexer" where
  "parseAdmonitionParagraph m lx =
     (let t = la lx 0
      in (Node K_AdmonitionParagraph (at1 (lineNo t)) m [] (head t) [] []
               (parseInlineContent (rest t) (lineNo t)),
          advance lx))"

definition paragraphStop :: "Kind \<Rightarrow> bool" where
  \<comment> \<open>The kinds that end a normal paragraph after one of its lines.\<close>
  "paragraphStop k \<longleftrightarrow>
     k = T_SECTION \<or> k = T_UL_ITEM \<or> k = T_OL_ITEM \<or> k = T_DESC_TERM \<or> k = T_TABLE_DELIM \<or>
     k = T_DELIM_LISTING \<or> k = T_DELIM_LITERAL \<or> k = T_ADMONITION \<or> k = T_BLOCK_MACRO \<or>
     k = T_DIRECTIVE"

function paragraphLines :: "bool \<Rightarrow> Lexer \<Rightarrow> string list \<Rightarrow> string list \<times> Lexer" where
  \<comment> \<open>The loop of \<open>parseParagraphOrLiteral\<close>, with the lines collected so far.\<close>
  "paragraphLines literal lx lines =
     (if kind (la lx 0) = T_TEXT then
        (let r = raw (la lx 0)
         in if literal \<and> (r = [] \<or> \<not> isSpace (at r 0)) then (lines, lx)
            else if \<not> literal \<and> trimmed r = [] then (lines, lx)
            else (let lines' = lines @ [if literal then mid r 1 else trimmed r];
                      lx' = advance lx
                  in if kind (la lx' 0) = T_BLANK then (lines', lx')
                     else if \<not> literal \<and> paragraphStop (kind (la lx' 0)) then (lines', lx')
                     else paragraphLines literal lx' lines'))
      else (lines, lx))"
  by pat_completeness auto
termination
  by (relation "measure (\<lambda>(literal, lx, lines). length (dtoks lx) - dpos lx)")
     (auto intro: advance_decreases)

declare paragraphLines.simps [simp del]

definition parseParagraphOrLiteral :: "BlockMeta option \<Rightarrow> Lexer \<Rightarrow> Node \<times> Lexer" where
  "parseParagraphOrLiteral m lx =
     (let literal = (kind (la lx 0) = T_TEXT \<and> raw (la lx 0) \<noteq> [] \<and> isSpace (at (raw (la lx 0)) 0));
          p = at1 (lineNo (la lx 0))
      in case paragraphLines literal lx [] of
           (lines, lx') \<Rightarrow>
             if literal
             then (Node K_LiteralParagraph p m (join lines [CHR 0x0A]) [] [] [] [], lx')
             else (Node K_Paragraph p m [] [] [] [] (parseInlineContent (join lines '' '') (line p)), lx'))"

definition parseBlockMacro :: "BlockMeta option \<Rightarrow> Lexer \<Rightarrow> Node \<times> Lexer" where
  "parseBlockMacro m lx =
     (let t = la lx 0
      in (Node K_BlockMacro (at1 (lineNo t)) m [] (head t) (rest t) [] [], advance lx))"

definition parseBreakOrComment :: "BlockMeta option \<Rightarrow> Lexer \<Rightarrow> Node option \<times> Lexer" where
  \<comment> \<open>The last case returns the null pointer.\<close>
  "parseBreakOrComment m lx =
     (let t = la lx 0
      in if kind t = T_LINE_COMMENT then
           (Some (Node K_LineComment (at1 (lineNo t)) m (rest t) [] [] [] []), advance lx)
         else if kind t = T_THEMATIC then
           (Some (Node K_ThematicBreak (at1 (lineNo t)) m (trimmed (raw t)) [] [] [] []), advance lx)
         else if kind t = T_PAGEBREAK then
           (Some (Node K_PageBreak (at1 (lineNo t)) m (rest t) [] [] [] []), advance lx)
         else (None, lx))"


subsection \<open>Tables\<close>

fun splitLoop :: "string \<Rightarrow> string list \<Rightarrow> string \<Rightarrow> nat \<Rightarrow> string list" where
  \<comment> \<open>The loop of \<open>splitUnescapedPipe\<close> over the remaining characters, with \<open>parts\<close>,
      \<open>cur\<close> and \<open>backslashRun\<close>.\<close>
  "splitLoop [] parts cur run = parts @ [cur]"
| "splitLoop (c # cs) parts cur run =
     (if c = CHR ''|'' then
        (if run mod 2 = 0 then splitLoop cs (parts @ [cur]) [] 0
         else splitLoop cs parts ((if cur \<noteq> [] then butlast cur else cur) @ ''|'') 0)
      else splitLoop cs parts (cur @ [c]) (if c = CHR 0x5C then run + 1 else 0))"

definition splitUnescapedPipe :: "string \<Rightarrow> string list" where
  "splitUnescapedPipe ln = splitLoop ln [] [] 0"

definition tableCell :: "int \<Rightarrow> string \<Rightarrow> Node" where
  "tableCell n cell = Node K_TableCell (at1 n) None [] [] [] [] (parseInlineContent (trimmed cell) n)"

definition readCells :: "LineTok \<Rightarrow> Node list" where
  \<comment> \<open>The loop starts at index 1: the part before the first separator is left out.\<close>
  "readCells rowTok = map (tableCell (lineNo rowTok)) (drop 1 (splitUnescapedPipe (raw rowTok)))"

function tableRows :: "Lexer \<Rightarrow> Node list list \<Rightarrow> Node list list \<times> Lexer" where
  \<comment> \<open>The row loop of \<open>parseTable\<close>.\<close>
  "tableRows lx parts =
     (if \<not> atEnd lx then
        (if kind (la lx 0) = T_TABLE_DELIM then (parts, advance lx)
         else if kind (la lx 0) = T_BLANK then tableRows (advance lx) parts
         else if kind (la lx 0) \<noteq> T_TABLE_LINE then tableRows (advance lx) parts
         else tableRows (advance lx) (parts @ [readCells (la lx 0)]))
      else (parts, lx))"
  by pat_completeness auto
termination
  by (relation "measure (\<lambda>(lx, parts). length (dtoks lx) - dpos lx)")
     (auto simp: atEnd_def intro: advance_decreases)

declare tableRows.simps [simp del]

definition tableRow :: "Node list \<Rightarrow> Node" where
  \<comment> \<open>A row positioned at its first cell.\<close>
  "tableRow cells = Node K_TableRow (pos (hd cells)) None [] [] [] [] cells"

fun flowRows :: "nat \<Rightarrow> nat \<Rightarrow> Node list \<Rightarrow> Node list" where
  \<comment> \<open>\<open>flowRows w rows cells\<close>: the next \<open>rows\<close> rows of \<open>w\<close> cells each.\<close>
  "flowRows w 0 cells = []"
| "flowRows w (Suc r) cells = tableRow (take w cells) # flowRows w r (drop w cells)"

definition buildTable :: "Node \<Rightarrow> Node list list \<Rightarrow> ParseError + Node" where
  \<comment> \<open>The second half of \<open>parseTable\<close>: the rows from the cells read.\<close>
  "buildTable t parts =
     (if parts \<noteq> [] then
        (let firstRow = hd parts
         in if firstRow \<noteq> [] then
              (let cells = concat (tl parts)
               in if int (length cells) mod int (length firstRow) \<noteq> 0 then
                    Inl (error ''the number of cells is not compatible with the table size''
                               (line (pos (hd firstRow))) (column (pos (hd firstRow))))
                  else
                    Inr (withChildren t
                           (tableRow firstRow #
                            flowRows (length firstRow) (length cells div length firstRow) cells)))
            else Inr t)
      else Inr t)"

definition parseTable :: "BlockMeta option \<Rightarrow> Lexer \<Rightarrow> ParseError + Node \<times> Lexer" where
  "parseTable m lx =
     (let opn = la lx 0
      in case expect T_TABLE_DELIM ''table delimiter |==='' lx of
           Inl e \<Rightarrow> Inl e
         | Inr lx1 \<Rightarrow>
             (case tableRows lx1 [] of
                (parts, lx2) \<Rightarrow>
                  (case buildTable (Node K_Table (at1 (lineNo opn)) m [] [] [] [] []) parts of
                     Inl e \<Rightarrow> Inl e
                   | Inr t \<Rightarrow> Inr (t, lx2))))"


subsection \<open>Blocks that hold nested blocks\<close>

text \<open>
  \<open>parseBlock\<close>, \<open>parseSection\<close>, \<open>parseDelimited\<close>, \<open>parseList\<close> and \<open>parseDirective\<close> call
  each other, and some of their loops do not move the lexer on every round, so they need
  not return. They are defined with fuel: the result \<open>None\<close> says that the fuel ran out,
  \<open>Some (Inl e)\<close> that the error \<open>e\<close> was thrown and \<open>Some (Inr r)\<close> that \<open>r\<close> was returned.
  Every function below takes as \<open>pb\<close> the function it calls as \<open>parseBlock\<close>, which is
  \<open>parseBlock\<close> with the fuel left; each round of a loop costs one unit.
\<close>

type_synonym 'a res = "(ParseError + 'a) option"

type_synonym blockParser = "Lexer \<Rightarrow> (Node option \<times> Lexer) res"

definition kindCode :: "Kind \<Rightarrow> int" where
  \<comment> \<open>\<open>(int)k\<close>, by the order of the enumeration. The two kinds that the lexer's header does
      not declare come last; no token carries them.\<close>
  "kindCode k =
     (case k of
        T_EOF \<Rightarrow> 0 | T_BLANK \<Rightarrow> 1 | T_BLOCK_ANCHOR \<Rightarrow> 2 | T_BLOCK_ATTRS \<Rightarrow> 3
      | T_BLOCK_TITLE \<Rightarrow> 4 | T_SECTION \<Rightarrow> 5 | T_ADMONITION \<Rightarrow> 6 | T_LINE_COMMENT \<Rightarrow> 7
      | T_THEMATIC \<Rightarrow> 8 | T_PAGEBREAK \<Rightarrow> 9 | T_UL_ITEM \<Rightarrow> 10 | T_OL_ITEM \<Rightarrow> 11
      | T_DESC_TERM \<Rightarrow> 12 | T_LIST_CONT \<Rightarrow> 13 | T_DELIM_LISTING \<Rightarrow> 14
      | T_DELIM_LITERAL \<Rightarrow> 15 | T_DELIM_QUOTE \<Rightarrow> 16 | T_DELIM_EXAMPLE \<Rightarrow> 17
      | T_DELIM_SIDEBAR \<Rightarrow> 18 | T_DELIM_OPEN \<Rightarrow> 19 | T_DELIM_COMMENT \<Rightarrow> 20
      | T_TABLE_DELIM \<Rightarrow> 21 | T_TABLE_LINE \<Rightarrow> 22 | T_BLOCK_MACRO \<Rightarrow> 23
      | T_DIRECTIVE \<Rightarrow> 24 | T_TEXT \<Rightarrow> 25 | T_DELIM_PASSTHROUGH \<Rightarrow> 26
      | T_STEM_ATTR_LINE \<Rightarrow> 27)"

definition delimStart :: "Kind \<Rightarrow> bool" where
  \<comment> \<open>The kinds on which \<open>parseBlock\<close> and \<open>parseList\<close> call \<open>parseDelimited\<close>.\<close>
  "delimStart k \<longleftrightarrow>
     k = T_DELIM_LISTING \<or> k = T_DELIM_LITERAL \<or> k = T_DELIM_QUOTE \<or> k = T_DELIM_EXAMPLE \<or>
     k = T_DELIM_SIDEBAR \<or> k = T_DELIM_OPEN \<or> k = T_DELIM_PASSTHROUGH \<or> k = T_DELIM_COMMENT \<or>
     k = T_STEM_ATTR_LINE"

fun sectionLoop :: "blockParser \<Rightarrow> nat \<Rightarrow> LineTok \<Rightarrow> Node \<Rightarrow> Lexer \<Rightarrow> (Node \<times> Lexer) res" where
  \<comment> \<open>The loop of \<open>parseSection\<close> for the heading token \<open>t\<close> and the section \<open>s\<close> so far.\<close>
  "sectionLoop pb 0 t s lx = None"
| "sectionLoop pb (Suc n) t s lx =
     (if \<not> atEnd lx then
        (let lx1 = skipBlankAndLineComments lx
         in if atEnd lx1 then Some (Inr (s, lx1))
            else (let cur = la lx1 0
                  in if kind cur = T_SECTION \<and> level cur \<le> level t then Some (Inr (s, lx1))
                     else if kind cur = T_TABLE_LINE then
                       Some (Inl (error ''unexpected table line'' (lineNo cur) 1))
                     else (let nxt = la lx1 1
                           in if (kind cur = T_BLOCK_ANCHOR \<or> kind cur = T_BLOCK_ATTRS) \<and>
                                 kind nxt = T_SECTION \<and> level nxt \<le> level t
                              then Some (Inr (s, lx1))
                              else (case pb lx1 of
                                      None \<Rightarrow> None
                                    | Some (Inl e) \<Rightarrow> Some (Inl e)
                                    | Some (Inr (None, lx2)) \<Rightarrow> Some (Inr (s, lx2))
                                    | Some (Inr (Some b, lx2)) \<Rightarrow> sectionLoop pb n t (add s b) lx2))))
      else Some (Inr (s, lx)))"

definition parseSection :: "blockParser \<Rightarrow> nat \<Rightarrow> BlockMeta option \<Rightarrow> Lexer \<Rightarrow> (Node \<times> Lexer) res" where
  "parseSection pb n m lx =
     (let t = la lx 0;
          s = Node K_Section (at1 (lineNo t)) m [] (rest t) [] [(''level'', number (level t))] []
      in sectionLoop pb n t s (advance lx))"

function rawLines :: "Kind \<Rightarrow> Lexer \<Rightarrow> string list \<Rightarrow> string list \<times> Lexer" where
  \<comment> \<open>The loop of \<open>parseDelimited\<close> over the lines of a raw block.\<close>
  "rawLines k lx lines =
     (if \<not> atEnd lx \<and> kind (la lx 0) \<noteq> k
      then rawLines k (advance lx) (lines @ [raw (la lx 0)])
      else (lines, lx))"
  by pat_completeness auto
termination
  by (relation "measure (\<lambda>(k, lx, lines). length (dtoks lx) - dpos lx)")
     (auto simp: atEnd_def intro: advance_decreases)

declare rawLines.simps [simp del]

fun delimitedLoop :: "blockParser \<Rightarrow> nat \<Rightarrow> Kind \<Rightarrow> Node \<Rightarrow> Lexer \<Rightarrow> (Node \<times> Lexer) res" where
  \<comment> \<open>The loop of \<open>parseDelimited\<close> over the blocks of a container with fence \<open>k\<close>.\<close>
  "delimitedLoop pb 0 k b lx = None"
| "delimitedLoop pb (Suc n) k b lx =
     (if \<not> atEnd lx \<and> kind (la lx 0) \<noteq> k then
        (let lx1 = skipBlankAndLineComments lx
         in if kind (la lx1 0) = k then Some (Inr (b, lx1))
            else (case pb lx1 of
                    None \<Rightarrow> None
                  | Some (Inl e) \<Rightarrow> Some (Inl e)
                  | Some (Inr (None, lx2)) \<Rightarrow> Some (Inr (b, lx2))
                  | Some (Inr (Some inner, lx2)) \<Rightarrow> delimitedLoop pb n k (add b inner) lx2))
      else Some (Inr (b, lx)))"

fun withText :: "Node \<Rightarrow> string \<Rightarrow> Node" where
  \<comment> \<open>\<open>n->text = v\<close>.\<close>
  "withText (Node k p m _ nm tg kvs cs) v = Node k p m v nm tg kvs cs"

definition closeDelimited :: "Kind \<Rightarrow> Node \<times> Lexer \<Rightarrow> (Node \<times> Lexer) res" where
  \<comment> \<open>\<open>expect(k, "closing delimiter")\<close>, then the block is returned.\<close>
  "closeDelimited k r =
     (case expect k ''closing delimiter'' (snd r) of
        Inl e \<Rightarrow> Some (Inl e)
      | Inr lx \<Rightarrow> Some (Inr (fst r, lx)))"

definition parseDelimited :: "blockParser \<Rightarrow> nat \<Rightarrow> BlockMeta option \<Rightarrow> Lexer \<Rightarrow> (Node \<times> Lexer) res" where
  "parseDelimited pb n m lx =
     (let isStem = (kind (la lx 0) = T_STEM_ATTR_LINE);
          lx1 = (if isStem then advance lx else lx);
          k = kind (la lx1 0);
          opn = la lx1 0;
          lx2 = advance lx1;
          b = kvInsert (kvInsert (Node K_DelimitedBlock (at1 (lineNo opn)) m [] [] [] [] [])
                          ''delim'' (number (kindCode k)))
                       ''stem'' (if isStem then ''1'' else ''0'');
          rawOnly = (k = T_DELIM_LISTING \<or> k = T_DELIM_LITERAL \<or> k = T_DELIM_PASSTHROUGH \<or>
                     k = T_DELIM_COMMENT \<or> isStem)
      in if rawOnly then
           (case rawLines k lx2 [] of
              (lines, lx3) \<Rightarrow> closeDelimited k (withText b (join lines [CHR 0x0A]), lx3))
         else
           (case delimitedLoop pb n k b lx2 of
              None \<Rightarrow> None
            | Some (Inl e) \<Rightarrow> Some (Inl e)
            | Some (Inr r) \<Rightarrow> closeDelimited k r))"

fun continuations :: "blockParser \<Rightarrow> nat \<Rightarrow> Node \<Rightarrow> Lexer \<Rightarrow> (Node \<times> Lexer) res" where
  \<comment> \<open>The loop of \<open>parseList\<close> over the \<open>+\<close> continuations of an item.\<close>
  "continuations pb 0 item lx = None"
| "continuations pb (Suc n) item lx =
     (if kind (la lx 0) = T_LIST_CONT then
        (case pb (skipBlankAndLineComments (advance lx)) of
           None \<Rightarrow> None
         | Some (Inl e) \<Rightarrow> Some (Inl e)
         | Some (Inr (None, lx2)) \<Rightarrow> continuations pb n item (skipBlankAndLineComments lx2)
         | Some (Inr (Some cont, lx2)) \<Rightarrow>
             continuations pb n (add item cont) (skipBlankAndLineComments lx2))
      else Some (Inr (item, lx)))"

definition definitionLine :: "LineTok \<Rightarrow> Node \<Rightarrow> Lexer \<Rightarrow> Node \<times> Lexer" where
  \<comment> \<open>The optional definition line behind a description term.\<close>
  "definitionLine termTok item lx =
     (if kind (la lx 0) = T_TEXT \<and> trimmed (raw (la lx 0)) \<noteq> [] then
        (add item (Node K_Paragraph (at1 (lineNo termTok)) None [] [] [] []
                     (parseInlineContent (trimmed (raw (la lx 0))) (lineNo termTok))),
         advance lx)
      else (item, lx))"

definition checklist :: "Node \<Rightarrow> string \<Rightarrow> Node \<times> string" where
  \<comment> \<open>The checklist marker of an item, split from its payload.\<close>
  "checklist item payload =
     (if startsWith payload ''[*]'' \<or> startsWith payload ''[x]'' \<or> startsWith payload ''[ ]''
      then (kvInsert item ''check'' (mid2 payload 1 1), trimmed (mid payload 3))
      else (item, payload))"

fun listLoop :: "blockParser \<Rightarrow> nat \<Rightarrow> Node \<Rightarrow> Lexer \<Rightarrow> (Node \<times> Lexer) res" where
  \<comment> \<open>The outer loop of \<open>parseList\<close>, one item per round.\<close>
  "listLoop pb 0 lst lx = None"
| "listLoop pb (Suc n) lst lx =
     (if qmapValue (kv lst) ''type'' = ''description'' then
        (if kind (la lx 0) \<noteq> T_DESC_TERM then Some (Inr (lst, lx))
         else
           (let termTok = la lx 0;
                item0 = Node K_ListItem (at1 (lineNo termTok)) None [] (rest termTok) []
                          [(''kind'', ''definition''), (''termLevel'', number (level termTok))] []
            in case definitionLine termTok item0 (advance lx) of
                 (item, lx1) \<Rightarrow>
                   (let lx2 = skipBlankAndLineComments lx1
                    in if kind (la lx2 0) = T_LIST_CONT then
                         (let lx3 = skipBlankAndLineComments (advance lx2)
                          in if delimStart (kind (la lx3 0)) then
                               (case parseDelimited pb n None lx3 of
                                  None \<Rightarrow> None
                                | Some (Inl e) \<Rightarrow> Some (Inl e)
                                | Some (Inr (cont, lx4)) \<Rightarrow>
                                    listLoop pb n (add lst (add item cont))
                                      (skipBlankAndLineComments lx4))
                             else
                               (case parseParagraphOrLiteral None lx3 of
                                  (cont, lx4) \<Rightarrow>
                                    listLoop pb n (add lst (add item cont))
                                      (skipBlankAndLineComments lx4)))
                       else listLoop pb n (add lst item) (skipBlankAndLineComments lx2))))
      else
        (let ordered = (qmapValue (kv lst) ''type'' = ''ordered'')
         in if ordered \<and> kind (la lx 0) \<noteq> T_OL_ITEM then Some (Inr (lst, lx))
            else if \<not> ordered \<and> kind (la lx 0) \<noteq> T_UL_ITEM then Some (Inr (lst, lx))
            else
              (let itTok = la lx 0;
                   item0 = Node K_ListItem (at1 (lineNo itTok)) None [] [] []
                             [(''markerLevel'', number (level itTok))] []
               in case checklist item0 (rest itTok) of
                    (item1, payload) \<Rightarrow>
                      (let headPara = Node K_Paragraph (at1 (lineNo itTok)) None [] [] [] []
                                        (parseInlineContent payload (lineNo itTok))
                       in case continuations pb n (add item1 headPara)
                                 (skipBlankAndLineComments (advance lx)) of
                            None \<Rightarrow> None
                          | Some (Inl e) \<Rightarrow> Some (Inl e)
                          | Some (Inr (item, lx1)) \<Rightarrow>
                              listLoop pb n (add lst item) (skipBlankAndLineComments lx1)))))"

definition parseList :: "blockParser \<Rightarrow> nat \<Rightarrow> BlockMeta option \<Rightarrow> Lexer \<Rightarrow> (Node \<times> Lexer) res" where
  "parseList pb n m lx =
     (let ty = (if kind (la lx 0) = T_DESC_TERM then ''description''
                else if kind (la lx 0) = T_OL_ITEM then ''ordered''
                else ''unordered'');
          lst = Node K_List (at1 (lineNo (la lx 0))) m [] [] [] [(''type'', ty)] []
      in listLoop pb n lst lx)"

fun directiveLoop :: "blockParser \<Rightarrow> nat \<Rightarrow> Node \<Rightarrow> Lexer \<Rightarrow> (Node \<times> Lexer) res" where
  \<comment> \<open>The loop of \<open>parseDirective\<close> over the body up to \<open>endif::\<close>.\<close>
  "directiveLoop pb 0 d lx = None"
| "directiveLoop pb (Suc n) d lx =
     (if \<not> atEnd lx then
        (let lx1 = skipBlankAndLineComments lx
         in if kind (la lx1 0) = T_DIRECTIVE \<and> startsWith (trimmed (raw (la lx1 0))) ''endif::'' then
              (let e = la lx1 0
               in Some (Inr (add d (Node K_Directive (at1 (lineNo e)) None (rest e) ''endif'' [] [] []),
                             advance lx1)))
            else if atEnd lx1 then Some (Inr (d, lx1))
            else (case pb lx1 of
                    None \<Rightarrow> None
                  | Some (Inl e) \<Rightarrow> Some (Inl e)
                  | Some (Inr (None, lx2)) \<Rightarrow> Some (Inr (d, lx2))
                  | Some (Inr (Some b, lx2)) \<Rightarrow> directiveLoop pb n (add d b) lx2))
      else Some (Inr (d, lx)))"

definition parseDirective :: "blockParser \<Rightarrow> nat \<Rightarrow> BlockMeta option \<Rightarrow> Lexer \<Rightarrow> (Node \<times> Lexer) res" where
  "parseDirective pb n m lx =
     (let t = la lx 0;
          d = Node K_Directive (at1 (lineNo t)) m (rest t) (head t) [] [] []
      in if head t = ''ifdef'' \<or> head t = ''ifndef'' \<or> head t = ''ifeval''
         then directiveLoop pb n d (advance lx)
         else Some (Inr (d, advance lx)))"

definition nonNull :: "(Node \<times> Lexer) res \<Rightarrow> (Node option \<times> Lexer) res" where
  \<comment> \<open>The result of a callee that never returns the null pointer, as \<open>parseBlock\<close> returns it.\<close>
  "nonNull r = map_option (map_sum id (\<lambda>(b, lx). (Some b, lx))) r"

definition dispatch :: "blockParser \<Rightarrow> nat \<Rightarrow> Lexer \<Rightarrow> (Node option \<times> Lexer) res" where
  \<comment> \<open>The body of \<open>parseBlock\<close>.\<close>
  "dispatch pb n lx0 =
     (case parseBlockMetaOpt lx0 of
        (m, lx) \<Rightarrow>
          (let k = kind (la lx 0)
           in if k = T_SECTION then nonNull (parseSection pb n m lx)
              else if k = T_ADMONITION then nonNull (Some (Inr (parseAdmonitionParagraph m lx)))
              else if k = T_UL_ITEM \<or> k = T_OL_ITEM \<or> k = T_DESC_TERM then
                nonNull (parseList pb n m lx)
              else if k = T_TABLE_DELIM then nonNull (Some (parseTable m lx))
              else if delimStart k then nonNull (parseDelimited pb n m lx)
              else if k = T_BLOCK_MACRO then nonNull (Some (Inr (parseBlockMacro m lx)))
              else if k = T_DIRECTIVE then nonNull (parseDirective pb n m lx)
              else if k = T_THEMATIC \<or> k = T_PAGEBREAK \<or> k = T_LINE_COMMENT then
                Some (Inr (parseBreakOrComment m lx))
              else nonNull (Some (Inr (parseParagraphOrLiteral m lx)))))"

fun parseBlock :: "nat \<Rightarrow> Lexer \<Rightarrow> (Node option \<times> Lexer) res" where
  "parseBlock 0 lx = None"
| "parseBlock (Suc n) lx = dispatch (parseBlock n) n lx"

fun documentLoop :: "blockParser \<Rightarrow> nat \<Rightarrow> Node \<Rightarrow> Lexer \<Rightarrow> Node res" where
  \<comment> \<open>The loop of \<open>parseDocument\<close>.\<close>
  "documentLoop pb 0 doc lx = None"
| "documentLoop pb (Suc n) doc lx =
     (if \<not> atEnd lx then
        (let lx1 = skipBlankAndLineComments lx
         in if atEnd lx1 then Some (Inr doc)
            else (case pb lx1 of
                    None \<Rightarrow> None
                  | Some (Inl e) \<Rightarrow> Some (Inl e)
                  | Some (Inr (None, lx2)) \<Rightarrow> Some (Inr doc)
                  | Some (Inr (Some b, lx2)) \<Rightarrow> documentLoop pb n (add doc b) lx2))
      else Some (Inr doc))"

definition parseDocument :: "nat \<Rightarrow> Lexer \<Rightarrow> Node res" where
  "parseDocument n lx =
     (case parseDocumentHeader (Node K_Document \<lparr>line = 1, column = 1\<rparr> None [] [] [] [] [])
             (skipBlankAndLineComments lx) of
        (doc, lx1) \<Rightarrow> documentLoop (parseBlock n) n doc lx1)"

definition parse :: "nat \<Rightarrow> string \<Rightarrow> Node res" where
  \<comment> \<open>\<open>Parser::parse\<close> with fuel \<open>n\<close>: \<open>Some (Inr root)\<close> is the tree returned,
      \<open>Some (Inl e)\<close> the null tree with \<open>*outErr = e\<close>, \<open>None\<close> that the fuel ran out.\<close>
  "parse n input = parseDocument n (setInput input)"


section \<open>The Typst generator: inline nodes and admonitions\<close>

text \<open>
  The generator writes to a text stream and returns \<open>false\<close> after recording an error. An
  emit function is modelled by the text it appends to the stream and the error it
  records: \<open>None\<close> stands for the return value \<open>true\<close>.
\<close>

record TypstGenError =
  genLine :: int
  genMessage :: string

record Options =
  templateName :: string
  templateFile :: string
  allowRawPassthrough :: bool

type_synonym emitted = "string \<times> TypstGenError option"

definition failAt :: "Node \<Rightarrow> string \<Rightarrow> TypstGenError option" where
  "failAt n msg = Some \<lparr>genLine = line (pos n), genMessage = msg\<rparr>"

fun escString :: "string \<Rightarrow> string" where
  "escString [] = []"
| "escString (c # cs) =
     (if c = CHR 0x5C then [CHR 0x5C, CHR 0x5C]
      else if c = CHR 0x22 then [CHR 0x5C, CHR 0x22]
      else if c = CHR 0x0A then [CHR 0x5C, CHR ''n'']
      else if c = CHR 0x0D then []
      else [c]) @ escString cs"

fun escText :: "string \<Rightarrow> string" where
  "escText [] = []"
| "escText (c # cs) =
     (if c = CHR 0x5C \<or> c = CHR ''*'' \<or> c = CHR ''_'' \<or> c = CHR ''`'' \<or> c = CHR ''#'' \<or>
         c = CHR ''['' \<or> c = CHR '']'' \<or> c = CHR ''<'' \<or> c = CHR ''>''
      then [CHR 0x5C, c] else [c]) @ escText cs"

definition wrap :: "string \<Rightarrow> emitted \<Rightarrow> string \<Rightarrow> emitted" where
  \<comment> \<open>\<open>out << a; if (!emit...) return false; out << b; return true\<close>.\<close>
  "wrap a r b = (case snd r of None \<Rightarrow> (a @ fst r @ b, None) | Some e \<Rightarrow> (a @ fst r, Some e))"

fun emitInline :: "Options \<Rightarrow> Node \<Rightarrow> emitted"
  and emitInlineSeq :: "Options \<Rightarrow> Node list \<Rightarrow> emitted" where
  "emitInline opt (Node k p m t nm tg kvs cs) =
     (if k = K_Text then (escText t, None)
      else if k = K_Emph then
        (if nm = ''bold'' then wrap ''*'' (emitInlineSeq opt cs) ''*''
         else if nm = ''italic'' then wrap ''_'' (emitInlineSeq opt cs) ''_''
         else if nm = ''mono'' then
           (if t \<noteq> [] then (''`'' @ escText t @ ''`'', None)
            else wrap ''`'' (emitInlineSeq opt cs) ''`'')
         else if nm = ''highlight'' then wrap ''#highlight(['' (emitInlineSeq opt cs) ''])''
         else ([], failAt (Node k p m t nm tg kvs cs) (''Unknown inline emphasis kind: '' @ nm)))
      else if k = K_Superscript then (''#super['' @ escText t @ '']'', None)
      else if k = K_Subscript then (''#sub['' @ escText t @ '']'', None)
      else if k = K_Link then
        (if cs = [] then
           (''#link('' @ [CHR 0x22] @ escString tg @ [CHR 0x22] @ '')['' @ escText tg @ '']'', None)
         else wrap (''#link('' @ [CHR 0x22] @ escString tg @ [CHR 0x22] @ '')['')
                   (emitInlineSeq opt cs) '']'')
      else if k = K_Xref then
        (if cs = [] then (''@'' @ escText tg, None)
         else wrap (''#link(<'' @ escText tg @ ''>)['') (emitInlineSeq opt cs) '']'')
      else if k = K_AnchorInline then (''<'' @ escText nm @ ''>'', None)
      else if k = K_AttrRef then (''{'' @ escText nm @ ''}'', None)
      else if k = K_InlineMacro then
        (if nm = ''footnote'' then wrap ''#footnote['' (emitInlineSeq opt cs) '']''
         else if nm = ''kbd'' \<or> nm = ''btn'' \<or> nm = ''menu'' then
           wrap ''#smallcaps['' (emitInlineSeq opt cs) '']''
         else if nm = ''stem'' then
           (if \<not> allowRawPassthrough opt then
              ([], failAt (Node k p m t nm tg kvs cs)
                     ''stem: inline macro requires raw passthrough or math conversion phase'')
            else (''$'' @ escText tg @ ''$'', None))
         else ([], failAt (Node k p m t nm tg kvs cs)
                     (''Unsupported inline macro in Typst generator: '' @ nm)))
      else if k = K_PassthroughInline then
        (if \<not> allowRawPassthrough opt then
           ([], failAt (Node k p m t nm tg kvs cs) ''Inline passthrough disabled'')
         else emitInlineSeq opt cs)
      else ([], failAt (Node k p m t nm tg kvs cs) ''Unsupported inline node kind in generator''))"
| "emitInlineSeq opt [] = ([], None)"
| "emitInlineSeq opt (n # ns) =
     (case emitInline opt n of
        (a, Some e) \<Rightarrow> (a, Some e)
      | (a, None) \<Rightarrow> (case emitInlineSeq opt ns of (b, r) \<Rightarrow> (a @ b, r)))"

definition emitAdmonition :: "Options \<Rightarrow> Node \<Rightarrow> emitted" where
  "emitAdmonition opt n =
     wrap (''#admon('' @ [CHR 0x22] @ escString (name n) @ [CHR 0x22] @ '', ['')
          (emitInlineSeq opt (children n))
          (''])'' @ [CHR 0x0A])"



section \<open>Properties of the inline scanner\<close>

lemma depth_bound:
  "snd (parseInlineFrom s n depth i acc) \<le> depth + phi s"
proof (induction s n depth i acc rule: parseInlineFrom.induct)
  case (1 s n depth i acc)
  show ?case
  proof (cases "0 \<le> i \<and> i < size_q s")
    case False
    then show ?thesis by (subst parseInlineFrom.simps) auto
  next
    case True
    show ?thesis
    proof (cases "matchAt s n i")
      case None
      with True 1(1)[OF True None] show ?thesis by (subst parseInlineFrom.simps) simp
    next
      case (Some m)
      from 1(3)[OF True Some] have rst: "snd (parseInlineFrom s n depth (m_next m) []) \<le> depth + phi s" .
      have inner: "snd (case m_inner m of None \<Rightarrow> ([], depth)
                        | Some t \<Rightarrow> parseInlineFrom t n (depth + 1) 0 []) \<le> depth + phi s"
      proof (cases "m_inner m")
        case None
        then show ?thesis by simp
      next
        case (Some t)
        from matchAt_ok[OF \<open>matchAt s n i = Some m\<close>] True Some have "phi t < phi s"
          by (simp add: shrinks_def)
        with 1(2)[OF True \<open>matchAt s n i = Some m\<close> Some] Some show ?thesis by simp
      qed
      from True Some rst inner show ?thesis
        by (subst parseInlineFrom.simps) (simp add: combine_def)
    qed
  qed
qed

lemma depth_never_read:
  \<comment> \<open>no branch reads \<open>depth\<close>: the nodes do not depend on it\<close>
  "fst (parseInlineFrom s n depth i acc) = fst (parseInlineFrom s n depth' i acc)"
proof (induction s n depth i acc arbitrary: depth' rule: parseInlineFrom.induct)
  case (1 s n depth i acc)
  show ?case
  proof (cases "0 \<le> i \<and> i < size_q s")
    case False
    then show ?thesis
      by (subst parseInlineFrom.simps, subst (2) parseInlineFrom.simps) auto
  next
    case True
    show ?thesis
    proof (cases "matchAt s n i")
      case None
      with True 1(1)[OF True None, of depth'] show ?thesis
        by (subst parseInlineFrom.simps, subst (2) parseInlineFrom.simps) simp
    next
      case (Some m)
      have inner: "fst (case m_inner m of None \<Rightarrow> ([], depth)
                        | Some t \<Rightarrow> parseInlineFrom t n (depth + 1) 0 []) =
                   fst (case m_inner m of None \<Rightarrow> ([], depth')
                        | Some t \<Rightarrow> parseInlineFrom t n (depth' + 1) 0 [])"
      proof (cases "m_inner m")
        case None
        then show ?thesis by simp
      next
        case (Some t)
        then show ?thesis
          using 1(2)[OF True \<open>matchAt s n i = Some m\<close> Some, of "depth' + 1"] by simp
      qed
      from True Some inner 1(3)[OF True Some, of depth'] show ?thesis
        by (subst parseInlineFrom.simps, subst (2) parseInlineFrom.simps) (simp add: combine_def)
    qed
  qed
qed

lemma depth_shift:
  "snd (parseInlineFrom s n (depth + k) i acc) = snd (parseInlineFrom s n depth i acc) + k"
proof (induction s n depth i acc rule: parseInlineFrom.induct)
  case (1 s n depth i acc)
  show ?case
  proof (cases "0 \<le> i \<and> i < size_q s")
    case False
    then show ?thesis
      by (subst parseInlineFrom.simps, subst (2) parseInlineFrom.simps) auto
  next
    case True
    show ?thesis
    proof (cases "matchAt s n i")
      case None
      with True 1(1)[OF True None] show ?thesis
        by (subst parseInlineFrom.simps, subst (2) parseInlineFrom.simps) simp
    next
      case (Some m)
      have inner: "snd (case m_inner m of None \<Rightarrow> ([], depth + k)
                        | Some t \<Rightarrow> parseInlineFrom t n (depth + k + 1) 0 []) =
                   snd (case m_inner m of None \<Rightarrow> ([], depth)
                        | Some t \<Rightarrow> parseInlineFrom t n (depth + 1) 0 []) + k"
      proof (cases "m_inner m")
        case None
        then show ?thesis by simp
      next
        case (Some t)
        have "depth + k + 1 = depth + 1 + k" by simp
        with Some show ?thesis
          using 1(2)[OF True \<open>matchAt s n i = Some m\<close> Some] by simp
      qed
      from True Some inner 1(3)[OF True Some] show ?thesis
        by (subst parseInlineFrom.simps, subst (2) parseInlineFrom.simps) (simp add: combine_def)
    qed
  qed
qed


section \<open>Properties of the block parser\<close>

lemma parseInlineContent_empty: "parseInlineContent [] n = []"
  by (simp add: parseInlineContent_def parseInlineContentRec_def parseInlineFrom.simps
      size_q_def pushText_def)

lemma skip_other:
  "kind (la lx 0) \<noteq> T_BLANK \<Longrightarrow> kind (la lx 0) \<noteq> T_LINE_COMMENT \<Longrightarrow>
   skipBlankAndLineComments lx = lx"
  by (simp add: skipBlankAndLineComments.simps)

definition emptyParagraph :: "Lexer \<Rightarrow> Node" where
  "emptyParagraph lx = Node K_Paragraph (at1 (lineNo (la lx 0))) None [] [] [] [] []"

lemma dispatch_table_line:
  assumes "kind (la lx 0) = T_TABLE_LINE"
  shows "dispatch pb n lx = Some (Inr (Some (emptyParagraph lx), lx))"
proof -
  have m: "parseBlockMetaOpt lx = (None, lx)"
    using assms by (simp add: parseBlockMetaOpt_def)
  have p: "parseParagraphOrLiteral None lx = (emptyParagraph lx, lx)"
    using assms
    by (simp add: parseParagraphOrLiteral_def paragraphLines.simps parseInlineContent_empty
        emptyParagraph_def at1_def)
  show ?thesis
    using assms by (simp add: dispatch_def m p delimStart_def nonNull_def)
qed

lemma parseBlock_table_line:
  assumes "kind (la lx 0) = T_TABLE_LINE"
  shows "parseBlock n lx = None \<or> parseBlock n lx = Some (Inr (Some (emptyParagraph lx), lx))"
  using dispatch_table_line[OF assms] by (cases n) simp_all

lemma documentLoop_table_line:
  assumes "kind (la lx 0) = T_TABLE_LINE"
    and "pb lx = None \<or> pb lx = Some (Inr (Some p, lx))"
  shows "documentLoop pb n doc lx = None"
proof (induction n arbitrary: doc)
  case 0
  show ?case by simp
next
  case (Suc n)
  have s: "skipBlankAndLineComments lx = lx" using assms(1) by (simp add: skip_other)
  have e: "\<not> atEnd lx" using assms(1) by (simp add: atEnd_def)
  from assms(2) show ?case
  proof
    assume "pb lx = None"
    then show ?thesis using s e by simp
  next
    assume "pb lx = Some (Inr (Some p, lx))"
    then show ?thesis using s e Suc.IH by simp
  qed
qed

lemma delimitedLoop_table_line:
  assumes "kind (la lx 0) = T_TABLE_LINE" and "k \<noteq> T_TABLE_LINE"
    and "pb lx = None \<or> pb lx = Some (Inr (Some p, lx))"
  shows "delimitedLoop pb n k b lx = None"
proof (induction n arbitrary: b)
  case 0
  show ?case by simp
next
  case (Suc n)
  have s: "skipBlankAndLineComments lx = lx" using assms(1) by (simp add: skip_other)
  have e: "\<not> atEnd lx" using assms(1) by (simp add: atEnd_def)
  from assms(3) show ?case
  proof
    assume "pb lx = None"
    then show ?thesis using s e assms(1,2) by simp
  next
    assume "pb lx = Some (Inr (Some p, lx))"
    then show ?thesis using s e assms(1,2) Suc.IH by simp
  qed
qed

subsection \<open>More fuel never changes a result\<close>

text \<open>
  A parse that returns with some fuel returns the same tree or error with any larger
  amount: the fuel only decides whether the model gets to the end of a parse, never what
  the parse answers. \<open>extends pb pb'\<close> says that \<open>pb'\<close> answers what \<open>pb\<close> answers wherever
  \<open>pb\<close> returns.
\<close>

definition extends :: "blockParser \<Rightarrow> blockParser \<Rightarrow> bool" where
  "extends pb pb' \<longleftrightarrow> (\<forall>lx r. pb lx = Some r \<longrightarrow> pb' lx = Some r)"

lemma extendsD: "extends pb pb' \<Longrightarrow> pb lx = Some r \<Longrightarrow> pb' lx = Some r"
  by (simp add: extends_def)

lemma sectionLoop_mono:
  assumes "extends pb pb'"
  shows "n \<le> n' \<Longrightarrow> sectionLoop pb n t s lx = Some r \<Longrightarrow> sectionLoop pb' n' t s lx = Some r"
proof (induction n arbitrary: n' s lx)
  case 0
  then show ?case by simp
next
  case (Suc n)
  from Suc.prems(1) obtain m where m: "n' = Suc m" "n \<le> m" by (cases n') auto
  show ?case
  proof (cases "pb (skipBlankAndLineComments lx)")
    case None
    with Suc.prems(2) show ?thesis
      unfolding m by (auto simp: Let_def split: if_splits)
  next
    case (Some a)
    note pb' = extendsD[OF assms Some]
    from Suc.prems(2) Some pb' Suc.IH[OF m(2)] show ?thesis
      unfolding m by (auto simp: Let_def split: if_splits sum.splits option.splits)
  qed
qed

lemma delimitedLoop_mono:
  assumes "extends pb pb'"
  shows "n \<le> n' \<Longrightarrow> delimitedLoop pb n k b lx = Some r \<Longrightarrow> delimitedLoop pb' n' k b lx = Some r"
proof (induction n arbitrary: n' b lx)
  case 0
  then show ?case by simp
next
  case (Suc n)
  from Suc.prems(1) obtain m where m: "n' = Suc m" "n \<le> m" by (cases n') auto
  show ?case
  proof (cases "pb (skipBlankAndLineComments lx)")
    case None
    with Suc.prems(2) show ?thesis
      unfolding m by (auto simp: Let_def split: if_splits)
  next
    case (Some a)
    note pb' = extendsD[OF assms Some]
    from Suc.prems(2) Some pb' Suc.IH[OF m(2)] show ?thesis
      unfolding m by (auto simp: Let_def split: if_splits sum.splits option.splits)
  qed
qed

lemma directiveLoop_mono:
  assumes "extends pb pb'"
  shows "n \<le> n' \<Longrightarrow> directiveLoop pb n d lx = Some r \<Longrightarrow> directiveLoop pb' n' d lx = Some r"
proof (induction n arbitrary: n' d lx)
  case 0
  then show ?case by simp
next
  case (Suc n)
  from Suc.prems(1) obtain m where m: "n' = Suc m" "n \<le> m" by (cases n') auto
  show ?case
  proof (cases "pb (skipBlankAndLineComments lx)")
    case None
    with Suc.prems(2) show ?thesis
      unfolding m by (auto simp: Let_def split: if_splits)
  next
    case (Some a)
    note pb' = extendsD[OF assms Some]
    from Suc.prems(2) Some pb' Suc.IH[OF m(2)] show ?thesis
      unfolding m by (auto simp: Let_def split: if_splits sum.splits option.splits)
  qed
qed

lemma documentLoop_mono:
  assumes "extends pb pb'"
  shows "n \<le> n' \<Longrightarrow> documentLoop pb n d lx = Some r \<Longrightarrow> documentLoop pb' n' d lx = Some r"
proof (induction n arbitrary: n' d lx)
  case 0
  then show ?case by simp
next
  case (Suc n)
  from Suc.prems(1) obtain m where m: "n' = Suc m" "n \<le> m" by (cases n') auto
  show ?case
  proof (cases "pb (skipBlankAndLineComments lx)")
    case None
    with Suc.prems(2) show ?thesis
      unfolding m by (auto simp: Let_def split: if_splits)
  next
    case (Some a)
    note pb' = extendsD[OF assms Some]
    from Suc.prems(2) Some pb' Suc.IH[OF m(2)] show ?thesis
      unfolding m by (auto simp: Let_def split: if_splits sum.splits option.splits)
  qed
qed

lemma continuations_mono:
  assumes "extends pb pb'"
  shows "n \<le> n' \<Longrightarrow> continuations pb n d lx = Some r \<Longrightarrow> continuations pb' n' d lx = Some r"
proof (induction n arbitrary: n' d lx)
  case 0
  then show ?case by simp
next
  case (Suc n)
  from Suc.prems(1) obtain m where m: "n' = Suc m" "n \<le> m" by (cases n') auto
  show ?case
  proof (cases "pb (skipBlankAndLineComments (advance lx))")
    case None
    with Suc.prems(2) show ?thesis
      unfolding m by (auto simp: Let_def split: if_splits)
  next
    case (Some a)
    note pb' = extendsD[OF assms Some]
    from Suc.prems(2) Some pb' Suc.IH[OF m(2)] show ?thesis
      unfolding m by (auto simp: Let_def split: if_splits sum.splits option.splits)
  qed
qed

lemma parseDelimited_mono:
  assumes "extends pb pb'" "n \<le> n'" "parseDelimited pb n m lx = Some r"
  shows "parseDelimited pb' n' m lx = Some r"
  using assms(3) delimitedLoop_mono[OF assms(1,2)]
  unfolding parseDelimited_def Let_def
  by (auto split: if_splits option.splits sum.splits prod.splits)

lemma parseSection_mono:
  assumes "extends pb pb'" "n \<le> n'" "parseSection pb n m lx = Some r"
  shows "parseSection pb' n' m lx = Some r"
  using assms(3) sectionLoop_mono[OF assms(1,2)]
  unfolding parseSection_def Let_def by simp

lemma parseDirective_mono:
  assumes "extends pb pb'" "n \<le> n'" "parseDirective pb n m lx = Some r"
  shows "parseDirective pb' n' m lx = Some r"
  using assms(3) directiveLoop_mono[OF assms(1,2)]
  unfolding parseDirective_def Let_def by (auto split: if_splits)


lemma listLoop_mono:
  assumes "extends pb pb'"
  shows "n \<le> n' \<Longrightarrow> listLoop pb n d lx = Some r \<Longrightarrow> listLoop pb' n' d lx = Some r"
proof (induction n arbitrary: n' d lx)
  case 0
  then show ?case by simp
next
  case (Suc n)
  from Suc.prems(1) obtain m where m: "n' = Suc m" "n \<le> m" by (cases n') auto
  note pd = parseDelimited_mono[OF assms m(2)]
  note co = continuations_mono[OF assms m(2)]
  note ih = Suc.IH[OF m(2)]
  show ?case
  proof (cases "qmapValue (kv d) ''type'' = ''description''")
    case True
    from Suc.prems(2) True pd ih show ?thesis
      unfolding m
      by (auto simp: Let_def split: if_splits sum.splits option.splits prod.splits)
  next
    case False
    from Suc.prems(2) False co ih show ?thesis
      unfolding m
      by (auto simp: Let_def split: if_splits sum.splits option.splits prod.splits)
  qed
qed

lemma parseList_mono:
  assumes "extends pb pb'" "n \<le> n'" "parseList pb n m lx = Some r"
  shows "parseList pb' n' m lx = Some r"
  using assms(3) listLoop_mono[OF assms(1,2)]
  unfolding parseList_def Let_def by simp

lemma nonNull_Some: "nonNull a = Some r \<Longrightarrow> (\<And>x. a = Some x \<Longrightarrow> b = Some x) \<Longrightarrow> nonNull b = Some r"
  by (cases a) (auto simp: nonNull_def)

lemma dispatch_mono:
  assumes "extends pb pb'" "n \<le> n'" "dispatch pb n lx = Some r"
  shows "dispatch pb' n' lx = Some r"
proof -
  obtain m lx1 where p: "parseBlockMetaOpt lx = (m, lx1)" by (cases "parseBlockMetaOpt lx")
  note a = parseSection_mono[OF assms(1,2)] parseList_mono[OF assms(1,2)]
    parseDelimited_mono[OF assms(1,2)] parseDirective_mono[OF assms(1,2)]
  from assms(3) show ?thesis
    unfolding dispatch_def p prod.case Let_def
    by (auto split: if_splits elim!: nonNull_Some intro: a)
qed

lemma parseBlock_mono: "n \<le> n' \<Longrightarrow> parseBlock n lx = Some r \<Longrightarrow> parseBlock n' lx = Some r"
proof (induction n arbitrary: n' lx r)
  case 0
  then show ?case by simp
next
  case (Suc n)
  from Suc.prems(1) obtain m where m: "n' = Suc m" "n \<le> m" by (cases n') auto
  have e: "extends (parseBlock n) (parseBlock m)"
    unfolding extends_def using Suc.IH[OF m(2)] by blast
  from Suc.prems(2) show ?case
    unfolding m parseBlock.simps by (rule dispatch_mono[OF e m(2)])
qed

lemma parseDocument_mono:
  assumes "n \<le> n'" "parseDocument n lx = Some r"
  shows "parseDocument n' lx = Some r"
proof -
  have e: "extends (parseBlock n) (parseBlock n')"
    unfolding extends_def using parseBlock_mono[OF assms(1)] by blast
  from assms(2) documentLoop_mono[OF e assms(1)] show ?thesis
    unfolding parseDocument_def by (auto split: prod.splits)
qed

lemma parse_mono: "n \<le> n' \<Longrightarrow> parse n input = Some r \<Longrightarrow> parse n' input = Some r"
  unfolding parse_def by (rule parseDocument_mono)


section \<open>Properties of the table parser\<close>

subsection \<open>Splitting a table line\<close>

lemma splitLoop_backslashes:
  "splitLoop (replicate n (CHR 0x5C) @ cs) parts cur run =
   splitLoop cs parts (cur @ replicate n (CHR 0x5C)) (run + n)"
proof (induction n arbitrary: cur run)
  case 0
  show ?case by simp
next
  case (Suc n)
  have "splitLoop (replicate (Suc n) (CHR 0x5C) @ cs) parts cur run =
        splitLoop (replicate n (CHR 0x5C) @ cs) parts (cur @ [CHR 0x5C]) (run + 1)"
    by simp
  also have "\<dots> = splitLoop cs parts ((cur @ [CHR 0x5C]) @ replicate n (CHR 0x5C)) (run + 1 + n)"
    by (rule Suc.IH)
  finally show ?case by (simp add: replicate_append_same)
qed

lemma splitLoop_plain_step:
  "c \<noteq> CHR ''|'' \<Longrightarrow> c \<noteq> CHR 0x5C \<Longrightarrow>
   splitLoop ((c # ws) @ cs) parts cur run = splitLoop (ws @ cs) parts (cur @ [c]) 0"
  by simp

lemma splitLoop_plain:
  assumes "\<forall>c\<in>set ws. c \<noteq> CHR ''|'' \<and> c \<noteq> CHR 0x5C"
  shows "splitLoop (ws @ cs) parts cur 0 = splitLoop cs parts (cur @ ws) 0"
  using assms
proof (induction ws arbitrary: cur)
  case Nil
  show ?case by simp
next
  case (Cons c ws)
  have "splitLoop ((c # ws) @ cs) parts cur 0 = splitLoop (ws @ cs) parts (cur @ [c]) 0"
    using Cons.prems by (intro splitLoop_plain_step) simp_all
  also have "\<dots> = splitLoop cs parts ((cur @ [c]) @ ws) 0"
    using Cons.prems by (intro Cons.IH) simp
  also have "(cur @ [c]) @ ws = cur @ c # ws" by simp
  finally show ?case .
qed

lemma splitLoop_length: "length parts < length (splitLoop cs parts cur run)"
proof (induction cs arbitrary: parts cur run)
  case Nil
  show ?case by simp
next
  case (Cons c cs)
  show ?case
  proof (cases "c = CHR ''|'' \<and> run mod 2 = 0")
    case True
    then show ?thesis using Cons.IH[of "parts @ [cur]" "[]" 0] by simp
  next
    case False
    then show ?thesis using Cons.IH[of parts] by auto
  qed
qed

lemma butlast_replicate_Suc: "butlast (replicate (Suc k) x) = replicate k x"
  by (induction k) auto

lemma escaped_pipe_rule:
  "splitLoop (replicate n (CHR 0x5C) @ CHR ''|'' # cs) parts cur 0 =
     (if even n then splitLoop cs (parts @ [cur @ replicate n (CHR 0x5C)]) [] 0
      else splitLoop cs parts (cur @ replicate (n - 1) (CHR 0x5C) @ ''|'') 0)"
proof (cases "even n")
  case True
  then show ?thesis by (simp add: splitLoop_backslashes even_iff_mod_2_eq_zero)
next
  case False
  then obtain k where k: "n = Suc k" by (cases n) auto
  have "butlast (cur @ replicate n (CHR 0x5C)) = cur @ replicate (n - 1) (CHR 0x5C)"
    unfolding k using butlast_replicate_Suc[of k "CHR 0x5C"] by (simp add: butlast_append)
  with False show ?thesis
    by (simp add: splitLoop_backslashes even_iff_mod_2_eq_zero k)
qed

lemma isSpace_plain: "isSpace c \<Longrightarrow> c \<noteq> CHR ''|'' \<and> c \<noteq> CHR 0x5C"
  by (auto simp: isSpace_def)

lemma splitLoop_Cons_parts:
  "splitLoop cs (p # ps) cur run = p # splitLoop cs ps cur run"
proof (induction cs arbitrary: ps cur run)
  case Nil
  show ?case by simp
next
  case (Cons c cs)
  show ?case
    using Cons.IH[of "ps @ [cur]" "[]" 0] Cons.IH[of ps] by simp
qed

lemma readCells_leading_space:
  assumes "\<forall>c\<in>set ws. isSpace c"
  shows "readCells (tok\<lparr>raw := ws @ CHR ''|'' # cs\<rparr>) =
         map (tableCell (lineNo tok)) (splitLoop cs [] [] 0)"
proof -
  have "\<forall>c\<in>set ws. c \<noteq> CHR ''|'' \<and> c \<noteq> CHR 0x5C"
    using assms isSpace_plain by blast
  from splitLoop_plain[OF this, of "CHR ''|'' # cs" "[]" "[]"]
  have "splitUnescapedPipe (ws @ CHR ''|'' # cs) = splitLoop cs [ws] [] 0"
    by (simp add: splitUnescapedPipe_def)
  then have "drop 1 (splitUnescapedPipe (ws @ CHR ''|'' # cs)) = splitLoop cs [] [] 0"
    by (simp add: splitLoop_Cons_parts)
  then show ?thesis by (simp add: readCells_def)
qed

lemma splitLoop_parts:
  "splitLoop cs parts cur run = parts @ splitLoop cs [] cur run"
proof (induction parts)
  case Nil
  show ?case by simp
next
  case (Cons p ps)
  then show ?case by (simp add: splitLoop_Cons_parts)
qed

lemma splitLoop_no_pipe:
  "CHR ''|'' \<notin> set ln \<Longrightarrow> splitLoop ln parts cur run = parts @ [cur @ ln]"
proof (induction ln arbitrary: cur run)
  case Nil
  show ?case by simp
next
  case (Cons c ln)
  from Cons.prems have "c \<noteq> CHR ''|''" "CHR ''|'' \<notin> set ln" by auto
  then show ?case using Cons.IH[of "cur @ [c]"] by simp
qed

lemma splitLoop_cur:
  "run = 0 \<or> cur \<noteq> [] \<Longrightarrow>
   splitLoop cs [] (pfx @ cur) run =
     (pfx @ hd (splitLoop cs [] cur run)) # tl (splitLoop cs [] cur run)"
proof (induction cs arbitrary: cur run)
  case Nil
  show ?case by simp
next
  case (Cons c cs)
  show ?case
  proof (cases "c = CHR ''|''")
    case False
    have "splitLoop (c # cs) [] (pfx @ cur) run =
          splitLoop cs [] (pfx @ (cur @ [c])) (if c = CHR 0x5C then run + 1 else 0)"
      using False by simp
    also have "\<dots> = (pfx @ hd (splitLoop cs [] (cur @ [c]) (if c = CHR 0x5C then run + 1 else 0))) #
                      tl (splitLoop cs [] (cur @ [c]) (if c = CHR 0x5C then run + 1 else 0))"
      by (rule Cons.IH) simp
    finally show ?thesis using False by simp
  next
    case True
    show ?thesis
    proof (cases "run mod 2 = 0")
      case even: True
      have l: "splitLoop (c # cs) [] (pfx @ cur) run = (pfx @ cur) # splitLoop cs [] [] 0"
        using True even by (simp add: splitLoop_Cons_parts)
      have r: "splitLoop (c # cs) [] cur run = cur # splitLoop cs [] [] 0"
        using True even by (simp add: splitLoop_Cons_parts)
      show ?thesis unfolding l r by simp
    next
      case odd: False
      then have "run \<noteq> 0" by auto
      with Cons.prems have ne: "cur \<noteq> []" by simp
      then have b: "butlast (pfx @ cur) = pfx @ butlast cur" by (simp add: butlast_append)
      have l: "splitLoop (c # cs) [] (pfx @ cur) run = splitLoop cs [] (pfx @ (butlast cur @ ''|'')) 0"
        using True odd ne b by simp
      have r: "splitLoop (c # cs) [] cur run = splitLoop cs [] (butlast cur @ ''|'') 0"
        using True odd ne by simp
      show ?thesis unfolding l r by (rule Cons.IH) simp
    qed
  qed
qed

lemma splitLoop_prefix:
  "pre \<noteq> [] \<Longrightarrow> last pre \<noteq> CHR 0x5C \<Longrightarrow>
   splitLoop (pre @ rst) parts cur run =
     splitLoop rst (butlast (splitLoop pre parts cur run)) (last (splitLoop pre parts cur run)) 0"
proof (induction pre arbitrary: parts cur run)
  case Nil
  then show ?case by simp
next
  case (Cons c pre)
  show ?case
  proof (cases "pre = []")
    case True
    with Cons.prems have "c \<noteq> CHR 0x5C" by simp
    with True show ?thesis by (simp add: butlast_append)
  next
    case False
    with Cons.prems have l: "last pre \<noteq> CHR 0x5C" by simp
    note ih = Cons.IH[OF False l]
    show ?thesis
    proof (cases "c = CHR ''|''")
      case c: True
      show ?thesis
      proof (cases "run mod 2 = 0")
        case True
        with c show ?thesis using ih[of "parts @ [cur]" "[]" 0] by simp
      next
        case False
        with c show ?thesis
          using ih[of parts "(if cur \<noteq> [] then butlast cur else cur) @ ''|''" 0] by simp
      qed
    next
      case c: False
      then show ?thesis
        using ih[of parts "cur @ [c]" "if c = CHR 0x5C then run + 1 else 0"] by simp
    qed
  qed
qed

lemma splitUnescapedPipe_prefix:
  assumes "pre = [] \<or> last pre \<noteq> CHR 0x5C"
  shows "splitUnescapedPipe (pre @ rst) =
         splitLoop rst (butlast (splitUnescapedPipe pre)) (last (splitUnescapedPipe pre)) 0"
proof (cases "pre = []")
  case True
  then show ?thesis by (simp add: splitUnescapedPipe_def)
next
  case False
  with assms have "last pre \<noteq> CHR 0x5C" by simp
  from splitLoop_prefix[OF False this] show ?thesis by (simp add: splitUnescapedPipe_def)
qed

lemma pipe_rule:
  assumes "pre = [] \<or> last pre \<noteq> CHR 0x5C"
  shows "splitUnescapedPipe (pre @ replicate k (CHR 0x5C) @ CHR ''|'' # cs) =
           (if even k then
              butlast (splitUnescapedPipe pre) @
              [last (splitUnescapedPipe pre) @ replicate k (CHR 0x5C)] @
              splitUnescapedPipe cs
            else
              butlast (splitUnescapedPipe pre) @
              [last (splitUnescapedPipe pre) @ replicate (k - 1) (CHR 0x5C) @ ''|'' @
               hd (splitUnescapedPipe cs)] @
              tl (splitUnescapedPipe cs))"
proof -
  let ?P = "splitUnescapedPipe pre"
  let ?Q = "splitUnescapedPipe cs"
  have 1: "splitUnescapedPipe (pre @ replicate k (CHR 0x5C) @ CHR ''|'' # cs) =
           splitLoop (replicate k (CHR 0x5C) @ CHR ''|'' # cs) (butlast ?P) (last ?P) 0"
    by (rule splitUnescapedPipe_prefix[OF assms])
  show ?thesis
  proof (cases "even k")
    case True
    have "splitLoop (replicate k (CHR 0x5C) @ CHR ''|'' # cs) (butlast ?P) (last ?P) 0 =
          splitLoop cs (butlast ?P @ [last ?P @ replicate k (CHR 0x5C)]) [] 0"
      using True by (simp only: escaped_pipe_rule if_True)
    also have "\<dots> = (butlast ?P @ [last ?P @ replicate k (CHR 0x5C)]) @ ?Q"
      unfolding splitUnescapedPipe_def by (rule splitLoop_parts)
    finally show ?thesis unfolding 1 using True by simp
  next
    case False
    let ?X = "last ?P @ replicate (k - 1) (CHR 0x5C) @ ''|''"
    have "splitLoop (replicate k (CHR 0x5C) @ CHR ''|'' # cs) (butlast ?P) (last ?P) 0 =
          splitLoop cs (butlast ?P) ?X 0"
      using False by (simp only: escaped_pipe_rule if_False)
    also have "\<dots> = butlast ?P @ splitLoop cs [] (?X @ []) 0"
      using splitLoop_parts[of cs "butlast ?P" ?X 0] by simp
    also have "splitLoop cs [] (?X @ []) 0 = (?X @ hd ?Q) # tl ?Q"
      unfolding splitUnescapedPipe_def by (rule splitLoop_cur) simp
    finally show ?thesis unfolding 1 using False by simp
  qed
qed

lemma no_pipe_rule: "CHR ''|'' \<notin> set ln \<Longrightarrow> splitUnescapedPipe ln = [ln]"
  by (simp add: splitUnescapedPipe_def splitLoop_no_pipe)


subsection \<open>The row loop\<close>

lemma peek_here:
  "peek \<lparr>dtoks = pre @ t # ts, eofLine = e, dpos = length pre\<rparr> 0 = t"
  by (simp add: peek_def)

lemma peek_end:
  "peek \<lparr>dtoks = pre, eofLine = e, dpos = length pre\<rparr> 0 = newTok\<lparr>kind := T_EOF, lineNo := e\<rparr>"
  by (simp add: peek_def)

lemma advance_here:
  "advance \<lparr>dtoks = pre @ t # ts, eofLine = e, dpos = length pre\<rparr> =
   \<lparr>dtoks = (pre @ [t]) @ ts, eofLine = e, dpos = length (pre @ [t])\<rparr>"
  by (simp add: takeTok_def)

lemma tableRows_body:
  assumes "\<forall>t\<in>set body. kind t \<noteq> T_TABLE_DELIM \<and> kind t \<noteq> T_EOF"
  shows "tableRows \<lparr>dtoks = pre @ body, eofLine = e, dpos = length pre\<rparr> parts =
         (parts @ map readCells (filter (\<lambda>t. kind t = T_TABLE_LINE) body),
          \<lparr>dtoks = pre @ body, eofLine = e, dpos = length pre + length body\<rparr>)"
  using assms
proof (induction body arbitrary: pre parts)
  case Nil
  show ?case
    by (subst tableRows.simps) (simp add: atEnd_def peek_end)
next
  case (Cons t ts)
  let ?lx = "\<lparr>dtoks = pre @ t # ts, eofLine = e, dpos = length pre\<rparr>"
  let ?lx' = "\<lparr>dtoks = (pre @ [t]) @ ts, eofLine = e, dpos = length (pre @ [t])\<rparr>"
  from Cons.prems have t: "kind t \<noteq> T_TABLE_DELIM" "kind t \<noteq> T_EOF"
    and ts: "\<forall>t\<in>set ts. kind t \<noteq> T_TABLE_DELIM \<and> kind t \<noteq> T_EOF" by simp_all
  have ih: "tableRows ?lx' ps =
         (ps @ map readCells (filter (\<lambda>t. kind t = T_TABLE_LINE) ts),
          \<lparr>dtoks = (pre @ [t]) @ ts, eofLine = e, dpos = length (pre @ [t]) + length ts\<rparr>)" for ps
    by (rule Cons.IH[OF ts])
  have step: "tableRows ?lx parts =
        tableRows ?lx' (if kind t = T_TABLE_LINE then parts @ [readCells t] else parts)"
    using t by (subst tableRows.simps) (simp add: atEnd_def peek_here advance_here del: append_assoc)
  show ?case
    unfolding step ih by simp
qed

lemma tableRows_body_closed:
  assumes "\<forall>t\<in>set body. kind t \<noteq> T_TABLE_DELIM \<and> kind t \<noteq> T_EOF"
    and "kind d = T_TABLE_DELIM"
  shows "tableRows \<lparr>dtoks = pre @ body @ [d], eofLine = e, dpos = length pre\<rparr> parts =
         (parts @ map readCells (filter (\<lambda>t. kind t = T_TABLE_LINE) body),
          \<lparr>dtoks = pre @ body @ [d], eofLine = e, dpos = length pre + length body + 1\<rparr>)"
  using assms(1)
proof (induction body arbitrary: pre parts)
  case Nil
  show ?case
    using assms(2) peek_here[of pre d "[]" e] advance_here[of pre d "[]" e]
    by (subst tableRows.simps) (simp add: atEnd_def)
next
  case (Cons t ts)
  let ?lx = "\<lparr>dtoks = pre @ t # (ts @ [d]), eofLine = e, dpos = length pre\<rparr>"
  let ?lx' = "\<lparr>dtoks = (pre @ [t]) @ ts @ [d], eofLine = e, dpos = length (pre @ [t])\<rparr>"
  from Cons.prems have t: "kind t \<noteq> T_TABLE_DELIM" "kind t \<noteq> T_EOF"
    and ts: "\<forall>t\<in>set ts. kind t \<noteq> T_TABLE_DELIM \<and> kind t \<noteq> T_EOF" by simp_all
  have ih: "tableRows ?lx' ps =
         (ps @ map readCells (filter (\<lambda>t. kind t = T_TABLE_LINE) ts),
          \<lparr>dtoks = (pre @ [t]) @ ts @ [d], eofLine = e, dpos = length (pre @ [t]) + length ts + 1\<rparr>)" for ps
    by (rule Cons.IH[OF ts])
  have step: "tableRows ?lx parts =
        tableRows ?lx' (if kind t = T_TABLE_LINE then parts @ [readCells t] else parts)"
    using t peek_here[of pre t "ts @ [d]" e] advance_here[of pre t "ts @ [d]" e]
    by (subst tableRows.simps) (simp add: atEnd_def del: append_assoc)
  have "tableRows \<lparr>dtoks = pre @ (t # ts) @ [d], eofLine = e, dpos = length pre\<rparr> parts = tableRows ?lx parts"
    by simp
  then show ?case
    unfolding step ih by simp
qed

lemma parseTable_unterminated:
  assumes d: "kind d = T_TABLE_DELIM"
    and body: "\<forall>t\<in>set body. kind t \<noteq> T_TABLE_DELIM \<and> kind t \<noteq> T_EOF"
  shows "parseTable m \<lparr>dtoks = pre @ d # body, eofLine = e, dpos = length pre\<rparr> =
     (case buildTable (Node K_Table (at1 (lineNo d)) m [] [] [] [] [])
             (map readCells (filter (\<lambda>t. kind t = T_TABLE_LINE) body)) of
        Inl err \<Rightarrow> Inl err
      | Inr t \<Rightarrow> Inr (t, \<lparr>dtoks = pre @ d # body, eofLine = e, dpos = length pre + 1 + length body\<rparr>))"
proof -
  have "tableRows \<lparr>dtoks = (pre @ [d]) @ body, eofLine = e, dpos = length (pre @ [d])\<rparr> [] =
        ([] @ map readCells (filter (\<lambda>t. kind t = T_TABLE_LINE) body),
         \<lparr>dtoks = (pre @ [d]) @ body, eofLine = e, dpos = length (pre @ [d]) + length body\<rparr>)"
    by (rule tableRows_body[OF body])
  then show ?thesis
    using d by (simp add: parseTable_def expect_def peek_here advance_here Let_def split: sum.splits)
qed


subsection \<open>Tokens of the lexer and the rows of a table\<close>

text \<open>
  \<open>lexed lx\<close>: every token of the lexer state is the classification of some line, as after
  \<open>setInput\<close>. \<open>tableCells lx\<close>: the cells that \<open>parseTable\<close> reads from \<open>lx\<close>, one list for each
  table line between the opening delimiter and the closing one (or the end of input).
\<close>

definition lexed :: "Lexer \<Rightarrow> bool" where
  "lexed lx \<longleftrightarrow> (\<forall>t\<in>set (dtoks lx). \<exists>ln n. t = classify ln n)"

definition tableCells :: "Lexer \<Rightarrow> Node list list" where
  "tableCells lx = fst (tableRows (advance lx) [])"

lemma raw_if: "raw a = x \<Longrightarrow> raw b = x \<Longrightarrow> raw (if c then a else b) = x"
  by simp

lemma raw_case:
  "raw a = x \<Longrightarrow> (\<And>v. raw (f v) = x) \<Longrightarrow> raw (case ov of None \<Rightarrow> a | Some v \<Rightarrow> f v) = x"
  by (cases ov) simp_all

lemma raw_classify: "raw (classify ln n) = ln"
  unfolding classify_def Let_def
  by (intro raw_if raw_case) simp_all

lemma kind_if:
  "(c \<Longrightarrow> kind a \<noteq> T) \<Longrightarrow> (\<not> c \<Longrightarrow> kind b \<noteq> T) \<Longrightarrow> kind (if c then a else b) \<noteq> T"
  by simp

lemma kind_case:
  "kind a \<noteq> T \<Longrightarrow> (\<And>v. kind (f v) \<noteq> T) \<Longrightarrow>
   kind (case ov of None \<Rightarrow> a | Some v \<Rightarrow> f v) \<noteq> T"
  by (cases ov) simp_all

lemma classify_not_table_line:
  "\<not> startsWith (trimmed ln) ''|'' \<Longrightarrow> kind (classify ln n) \<noteq> T_TABLE_LINE"
  unfolding classify_def Let_def
  by (intro kind_if kind_case) simp_all

lemma classify_table_line:
  "kind (classify ln n) = T_TABLE_LINE \<Longrightarrow> startsWith (trimmed ln) ''|'' \<and> raw (classify ln n) = ln"
  using classify_not_table_line raw_classify by blast

lemma trimmed_take: "\<exists>k. trimmed s = take k (dropWhile isSpace s)"
  unfolding trimmed_def
  by (metis dropWhile_eq_drop rev_drop rev_rev_ident)

lemma leading_pipe:
  assumes "startsWith (trimmed ln) ''|''"
  shows "\<exists>ws cs. ln = ws @ CHR ''|'' # cs \<and> (\<forall>c\<in>set ws. isSpace c)"
proof -
  let ?d = "dropWhile isSpace ln"
  obtain k where k: "trimmed ln = take k ?d" using trimmed_take by blast
  from assms have "take 1 (take k ?d) = ''|''"
    by (simp add: startsWith_def k)
  then have "?d \<noteq> []" "hd ?d = CHR ''|''"
    by (cases ?d; cases k; simp)+
  then have "?d = CHR ''|'' # tl ?d" by (cases ?d) simp_all
  then have "ln = takeWhile isSpace ln @ CHR ''|'' # tl ?d"
    by (metis takeWhile_dropWhile_id)
  moreover have "\<forall>c\<in>set (takeWhile isSpace ln). isSpace c"
    by (auto dest: set_takeWhileD)
  ultimately show ?thesis by blast
qed

lemma readCells_nonempty:
  assumes "kind (classify ln n) = T_TABLE_LINE"
  shows "readCells (classify ln n) \<noteq> []"
proof -
  from classify_table_line[OF assms] leading_pipe
  obtain ws cs where ln: "ln = ws @ CHR ''|'' # cs" "\<forall>c\<in>set ws. isSpace c"
    and r: "raw (classify ln n) = ln" by blast
  have "classify ln n = (classify ln n)\<lparr>raw := ws @ CHR ''|'' # cs\<rparr>"
    using r ln(1) by simp
  then have "readCells (classify ln n) =
             map (tableCell (lineNo (classify ln n))) (splitLoop cs [] [] 0)"
    using readCells_leading_space[OF ln(2), where tok = "classify ln n" and cs = cs] by simp
  moreover have "splitLoop cs [] [] 0 \<noteq> []"
    using splitLoop_length[of "[]" cs "[]" 0] by auto
  ultimately show ?thesis by simp
qed

lemma dtoks_advance: "dtoks (advance lx) = dtoks lx"
  by (simp add: takeTok_def)

lemma peek_in_dtoks: "kind (peek lx 0) \<noteq> T_EOF \<Longrightarrow> peek lx 0 \<in> set (dtoks lx)"
  by (auto simp: peek_def Let_def newTok_def split: if_splits)

lemma tableRows_nonempty:
  "lexed lx \<Longrightarrow> \<forall>r\<in>set parts. r \<noteq> [] \<Longrightarrow> \<forall>r\<in>set (fst (tableRows lx parts)). r \<noteq> []"
proof (induction lx parts rule: tableRows.induct)
  case (1 lx parts)
  have adv: "lexed (advance lx)" using 1(4) by (simp add: lexed_def dtoks_advance)
  show ?case
  proof (cases "atEnd lx")
    case True
    then show ?thesis using 1(5) by (subst tableRows.simps) simp
  next
    case False
    note ne = False
    show ?thesis
    proof (cases "kind (la lx 0) = T_TABLE_DELIM")
      case True
      then show ?thesis using ne 1(5) by (subst tableRows.simps) simp
    next
      case False
      note nd = False
      show ?thesis
      proof (cases "kind (la lx 0) = T_BLANK")
        case True
        then show ?thesis using ne nd 1(1)[OF ne nd True adv 1(5)]
          by (subst tableRows.simps) simp
      next
        case False
        note nb = False
        show ?thesis
        proof (cases "kind (la lx 0) = T_TABLE_LINE")
          case False
          then show ?thesis using ne nd nb 1(2)[OF ne nd nb False adv 1(5)]
            by (subst tableRows.simps) simp
        next
          case True
          have "la lx 0 \<in> set (dtoks lx)"
            using ne by (intro peek_in_dtoks) (simp add: atEnd_def)
          then obtain ln n where "la lx 0 = classify ln n"
            using 1(4) by (auto simp: lexed_def)
          with True have "readCells (la lx 0) \<noteq> []"
            using readCells_nonempty by simp
          with 1(5) have "\<forall>r\<in>set (parts @ [readCells (la lx 0)]). r \<noteq> []" by simp
          from 1(3)[OF ne nd nb _ adv this] True
          show ?thesis using ne nd nb by (subst tableRows.simps) simp
        qed
      qed
    qed
  qed
qed

lemma tableCells_nonempty: "lexed lx \<Longrightarrow> \<forall>r\<in>set (tableCells lx). r \<noteq> []"
  unfolding tableCells_def
  by (rule tableRows_nonempty) (simp_all add: lexed_def dtoks_advance)

lemma children_withChildren: "children (withChildren t cs) = cs"
  by (cases t) simp

lemma flowRows_props:
  "length cells = r * w \<Longrightarrow>
   (\<forall>row\<in>set (flowRows w r cells). nkind row = K_TableRow \<and> length (children row) = w) \<and>
   concat (map children (flowRows w r cells)) = cells"
proof (induction r arbitrary: cells)
  case 0
  then show ?case by simp
next
  case (Suc r)
  then have "length (drop w cells) = r * w" by simp
  from Suc.IH[OF this] Suc.prems show ?case
    by (simp add: tableRow_def)
qed

lemma set_classifyLines: "t \<in> set (classifyLines ls n) \<Longrightarrow> \<exists>ln k. t = classify ln k"
  by (induction ls arbitrary: n) auto

lemma lexed_setInput: "lexed (setInput txt)"
  by (auto simp: lexed_def setInput_def Let_def dest: set_classifyLines)

lemma buildTable_rows:
  assumes "parts \<noteq> []" "hd parts \<noteq> []"
  shows "buildTable t parts =
     (if length (concat (tl parts)) mod length (hd parts) \<noteq> 0 then
        Inl (error ''the number of cells is not compatible with the table size''
                   (line (pos (hd (hd parts)))) (column (pos (hd (hd parts)))))
      else Inr (withChildren t
                  (tableRow (hd parts) #
                   flowRows (length (hd parts)) (length (concat (tl parts)) div length (hd parts))
                     (concat (tl parts)))))"
proof -
  have "(int (length (concat (tl parts))) mod int (length (hd parts)) \<noteq> 0) =
        (length (concat (tl parts)) mod length (hd parts) \<noteq> 0)"
    by (simp add: zmod_int[symmetric] del: length_concat)
  then show ?thesis
    using assms by (simp add: buildTable_def Let_def del: length_concat)
qed

lemma parseTable_unfold:
  assumes "kind (la lx 0) = T_TABLE_DELIM"
  shows "parseTable m lx =
     (case buildTable (Node K_Table (at1 (lineNo (la lx 0))) m [] [] [] [] []) (tableCells lx) of
        Inl e \<Rightarrow> Inl e
      | Inr t \<Rightarrow> Inr (t, snd (tableRows (advance lx) [])))"
  using assms
  by (simp add: parseTable_def expect_def tableCells_def Let_def split: prod.splits sum.splits)

lemma nkind_withChildren: "nkind (withChildren t cs) = nkind t"
  by (cases t) simp

definition cellTexts :: "Node \<Rightarrow> string list list" where
  "cellTexts t = map (\<lambda>r. map ntext (concat (map children (children r)))) (children t)"


section \<open>The claims\<close>

text \<open>
  C1. Block metadata attaches to the block that follows it. For the lines \<open>== A\<close>,
  \<open>[[anchor]]\<close>, \<open>=== B\<close> the parser does attach the anchor to \<open>B\<close> (lemma
  \<open>anchor_attaches_to_following_section\<close> below). A bracketed attribute line \<open>[role]\<close> in
  the same place is not attached to anything: the lexer classifies it as \<open>T_TEXT\<close>, the
  parser turns it into a paragraph, and section \<open>B\<close> carries no metadata at all. The
  parse returns this tree with 10 units of fuel and with any larger amount.
\<close>

theorem attribute_line_becomes_paragraph:
  "parse (10 + n) ''== A\<newline>[role]\<newline>=== B'' =
     Some (Inr (Node K_Document \<lparr>line = 1, column = 1\<rparr> None [] [] [] []
       [Node K_Section \<lparr>line = 1, column = 1\<rparr> None [] ''A'' [] [(''level'', ''2'')]
          [Node K_Paragraph \<lparr>line = 2, column = 1\<rparr> None [] [] [] []
             [Node K_Text \<lparr>line = 2, column = 1\<rparr> None ''[role]'' [] [] [] []],
           Node K_Section \<lparr>line = 3, column = 1\<rparr> None [] ''B'' [] [(''level'', ''3'')] []]]))"
proof -
  have "parse 10 ''== A\<newline>[role]\<newline>=== B'' =
     Some (Inr (Node K_Document \<lparr>line = 1, column = 1\<rparr> None [] [] [] []
       [Node K_Section \<lparr>line = 1, column = 1\<rparr> None [] ''A'' [] [(''level'', ''2'')]
          [Node K_Paragraph \<lparr>line = 2, column = 1\<rparr> None [] [] [] []
             [Node K_Text \<lparr>line = 2, column = 1\<rparr> None ''[role]'' [] [] [] []],
           Node K_Section \<lparr>line = 3, column = 1\<rparr> None [] ''B'' [] [(''level'', ''3'')] []]]))"
    by code_simp
  then show ?thesis by (rule parse_mono[OF le_add1])
qed

lemma anchor_attaches_to_following_section:
  "parse (10 + n) ''== A\<newline>[[anchor]]\<newline>=== B'' =
     Some (Inr (Node K_Document \<lparr>line = 1, column = 1\<rparr> None [] [] [] []
       [Node K_Section \<lparr>line = 1, column = 1\<rparr> None [] ''A'' [] [(''level'', ''2'')]
          [Node K_Section \<lparr>line = 3, column = 1\<rparr>
             (Some \<lparr>anchorId = ''anchor'', anchorText = [], title = [], attrs = [], roles = []\<rparr>)
             [] ''B'' [] [(''level'', ''3'')] []]]))"
proof -
  have "parse 10 ''== A\<newline>[[anchor]]\<newline>=== B'' =
     Some (Inr (Node K_Document \<lparr>line = 1, column = 1\<rparr> None [] [] [] []
       [Node K_Section \<lparr>line = 1, column = 1\<rparr> None [] ''A'' [] [(''level'', ''2'')]
          [Node K_Section \<lparr>line = 3, column = 1\<rparr>
             (Some \<lparr>anchorId = ''anchor'', anchorText = [], title = [], attrs = [], roles = []\<rparr>)
             [] ''B'' [] [(''level'', ''3'')] []]]))"
    by code_simp
  then show ?thesis by (rule parse_mono[OF le_add1])
qed

text \<open>
  C2. Every child section has a strictly greater level than its parent. The loop of
  \<open>parseSection\<close> looks one token ahead for a section heading behind an anchor or an
  attribute line, but not behind a title line: for the lines \<open>== A\<close>, \<open>.Title\<close>, \<open>== B\<close>
  section \<open>B\<close> of level 2 becomes a child of section \<open>A\<close> of level 2, with 10 units of
  fuel and with any larger amount.
\<close>

theorem title_line_nests_sibling_section:
  "parse (10 + n) ''== A\<newline>.Title\<newline>== B'' =
     Some (Inr (Node K_Document \<lparr>line = 1, column = 1\<rparr> None [] [] [] []
       [Node K_Section \<lparr>line = 1, column = 1\<rparr> None [] ''A'' [] [(''level'', ''2'')]
          [Node K_Section \<lparr>line = 3, column = 1\<rparr>
             (Some \<lparr>anchorId = [], anchorText = [], title = ''Title'', attrs = [], roles = []\<rparr>)
             [] ''B'' [] [(''level'', ''2'')] []]]))"
proof -
  have "parse 10 ''== A\<newline>.Title\<newline>== B'' =
     Some (Inr (Node K_Document \<lparr>line = 1, column = 1\<rparr> None [] [] [] []
       [Node K_Section \<lparr>line = 1, column = 1\<rparr> None [] ''A'' [] [(''level'', ''2'')]
          [Node K_Section \<lparr>line = 3, column = 1\<rparr>
             (Some \<lparr>anchorId = [], anchorText = [], title = ''Title'', attrs = [], roles = []\<rparr>)
             [] ''B'' [] [(''level'', ''2'')] []]]))"
    by code_simp
  then show ?thesis by (rule parse_mono[OF le_add1])
qed

text \<open>
  C3. In a table that parses, every row has as many cells as the first row: the first table
  line gives the width, the cells of the later lines are re-flowed into rows of that width
  in their order, and when their number is not a multiple of the width the parse fails with
  an error positioned at the first cell (the line of the first table line). The tokens are
  those of the lexer (\<open>lexed\<close>), for which every table line has at least one cell.
\<close>

theorem table_rows_consistent:
  assumes "lexed lx" and "kind (la lx 0) = T_TABLE_DELIM"
  shows "if tableCells lx \<noteq> [] \<and>
            length (concat (tl (tableCells lx))) mod length (hd (tableCells lx)) \<noteq> 0
         then parseTable m lx =
                Inl (error ''the number of cells is not compatible with the table size''
                       (line (pos (hd (hd (tableCells lx)))))
                       (column (pos (hd (hd (tableCells lx))))))
         else \<exists>t lx'. parseTable m lx = Inr (t, lx') \<and> nkind t = K_Table \<and>
                (\<forall>r\<in>set (children t).
                    nkind r = K_TableRow \<and>
                    length (children r) = length (children (hd (children t)))) \<and>
                map children (take 1 (children t)) = take 1 (tableCells lx) \<and>
                concat (map children (drop 1 (children t))) = concat (drop 1 (tableCells lx))"
proof (cases "tableCells lx = []")
  case True
  then show ?thesis
    using parseTable_unfold[OF assms(2), of m] by (simp add: buildTable_def)
next
  case False
  let ?parts = "tableCells lx"
  let ?w = "length (hd ?parts)"
  let ?cells = "concat (tl ?parts)"
  let ?t0 = "Node K_Table (at1 (lineNo (la lx 0))) m [] [] [] [] []"
  from tableCells_nonempty[OF assms(1)] False have first: "hd ?parts \<noteq> []"
    by (cases ?parts) simp_all
  note bt = buildTable_rows[OF False first, of ?t0]
  show ?thesis
  proof (cases "length ?cells mod ?w \<noteq> 0")
    case True
    then show ?thesis
      using False bt parseTable_unfold[OF assms(2), of m] by simp
  next
    case nz: False
    let ?k = "length ?cells div ?w"
    let ?rows = "tableRow (hd ?parts) # flowRows ?w ?k ?cells"
    have len: "length ?cells = ?k * ?w"
      using nz div_mult_mod_eq[of "length ?cells" ?w] by (simp del: length_concat)
    note fr = flowRows_props[OF len]
    have pt: "parseTable m lx = Inr (withChildren ?t0 ?rows, snd (tableRows (advance lx) []))"
      using nz bt parseTable_unfold[OF assms(2), of m] by (simp del: length_concat)
    define T where "T = withChildren ?t0 ?rows"
    have chT: "children T = ?rows" unfolding T_def by (rule children_withChildren)
    have a: "parseTable m lx = Inr (T, snd (tableRows (advance lx) []))"
      unfolding T_def by (rule pt)
    have b: "nkind T = K_Table" unfolding T_def by (simp add: nkind_withChildren)
    have c: "\<forall>r\<in>set (children T).
               nkind r = K_TableRow \<and> length (children r) = length (children (hd (children T)))"
      unfolding chT using fr by (simp add: tableRow_def)
    have d: "map children (take 1 (children T)) = take 1 ?parts"
      unfolding chT using False by (cases ?parts) (simp_all add: tableRow_def)
    have e: "concat (map children (drop 1 (children T))) = concat (drop 1 ?parts)"
      unfolding chT using fr by (simp add: drop_Suc)
    from a b c d e have "\<exists>t lx'. parseTable m lx = Inr (t, lx') \<and> nkind t = K_Table \<and>
                (\<forall>r\<in>set (children t).
                    nkind r = K_TableRow \<and>
                    length (children r) = length (children (hd (children t)))) \<and>
                map children (take 1 (children t)) = take 1 (tableCells lx) \<and>
                concat (map children (drop 1 (children t))) = concat (drop 1 (tableCells lx))"
      by blast
    with nz show ?thesis by (simp del: length_concat)
  qed
qed

theorem table_rows_consistent_witness:
  "lexed (setInput ''|===\<newline>|a|b\<newline>|c\<newline>|d\<newline>|==='') \<and>
   kind (la (setInput ''|===\<newline>|a|b\<newline>|c\<newline>|d\<newline>|==='') 0) = T_TABLE_DELIM \<and>
   (\<exists>t lx'. parseTable None (setInput ''|===\<newline>|a|b\<newline>|c\<newline>|d\<newline>|==='') = Inr (t, lx') \<and>
       map (\<lambda>r. length (children r)) (children t) = [2, 2]) \<and>
   parseTable None (setInput ''|===\<newline>|a|b\<newline>|c\<newline>|==='') =
     Inl \<lparr>line = 2, column = 1,
          message = ''the number of cells is not compatible with the table size''\<rparr>"
proof -
  let ?ok = "setInput ''|===\<newline>|a|b\<newline>|c\<newline>|d\<newline>|===''"
  let ?bad = "setInput ''|===\<newline>|a|b\<newline>|c\<newline>|===''"
  have l1: "lexed ?ok" and l2: "lexed ?bad" by (rule lexed_setInput)+
  have k1: "kind (la ?ok 0) = T_TABLE_DELIM" by code_simp
  have k2: "kind (la ?bad 0) = T_TABLE_DELIM" by code_simp
  have c1: "\<not> (tableCells ?ok \<noteq> [] \<and>
              length (concat (tl (tableCells ?ok))) mod length (hd (tableCells ?ok)) \<noteq> 0)"
    by code_simp
  have c2: "tableCells ?bad \<noteq> [] \<and>
              length (concat (tl (tableCells ?bad))) mod length (hd (tableCells ?bad)) \<noteq> 0"
    by code_simp
  have p2: "error ''the number of cells is not compatible with the table size''
                       (line (pos (hd (hd (tableCells ?bad)))))
                       (column (pos (hd (hd (tableCells ?bad))))) =
            \<lparr>line = 2, column = 1,
             message = ''the number of cells is not compatible with the table size''\<rparr>"
    by code_simp
  from table_rows_consistent[OF l1 k1, of None, unfolded if_not_P[OF c1]]
  obtain t lx' where t: "parseTable None ?ok = Inr (t, lx')"
    by blast
  have ev: "map (\<lambda>r. length (children r)) (children (fst (projr (parseTable None ?ok)))) = [2, 2]"
    by code_simp
  have e: "map (\<lambda>r. length (children r)) (children t) = [2, 2]"
    using ev unfolding t by simp
  from table_rows_consistent[OF l2 k2, of None, unfolded if_P[OF c2]]
  have bad: "parseTable None ?bad =
     Inl \<lparr>line = 2, column = 1,
          message = ''the number of cells is not compatible with the table size''\<rparr>"
    unfolding p2 .
  have ex: "\<exists>t lx'. parseTable None ?ok = Inr (t, lx') \<and>
       map (\<lambda>r. length (children r)) (children t) = [2, 2]"
    by (rule exI[of _ t], rule exI[of _ lx'], rule conjI[OF t e])
  show ?thesis by (rule conjI[OF l1 conjI[OF k1 conjI[OF ex bad]]])
qed

text \<open>
  C4. A line that is exactly a fence is classified as the fence's token kind. Two of the
  seven fences never are: \<open>....\<close> starts with a dot followed by a non-space and is taken by
  the earlier rule for block titles, and \<open>////\<close> starts with \<open>//\<close> and is taken by the
  earlier rule for line comments. The other five are classified as claimed (lemma
  \<open>five_fences_classified\<close> below).
\<close>

theorem literal_and_comment_fences_shadowed:
  "kind (classify ''....'' n) = T_BLOCK_TITLE \<and> kind (classify ''////'' n) = T_LINE_COMMENT"
  by code_simp

lemma five_fences_classified:
  "kind (classify ''----'' n) = T_DELIM_LISTING"
  "kind (classify ''____'' n) = T_DELIM_QUOTE"
  "kind (classify ''===='' n) = T_DELIM_EXAMPLE"
  "kind (classify ''****'' n) = T_DELIM_SIDEBAR"
  "kind (classify ''--'' n) = T_DELIM_OPEN"
  by code_simp+

text \<open>
  C5. Splitting a table line. Take any \<open>|\<close> of a line: before it stand \<open>k\<close> backslashes, and
  before them the text \<open>pre\<close>, which is empty or ends with another character, so that \<open>k\<close>
  counts the whole run; behind it stands \<open>cs\<close>. When \<open>k\<close> is even the \<open>|\<close> separates: the
  parts of the line are the parts of \<open>pre\<close>, the last of them with the \<open>k\<close> backslashes
  added, and then the parts of \<open>cs\<close>. When \<open>k\<close> is odd the \<open>|\<close> is literal: it joins the last
  part of \<open>pre\<close> to the first part of \<open>cs\<close> and takes the place of the last backslash. A
  text without \<open>|\<close> is one part. With these rules the parts of every line are known. In the
  states of the loop: a \<open>|\<close> met with a counter of zero behind \<open>k\<close> backslashes ends the
  current part, which keeps the backslashes, when \<open>k\<close> is even, and replaces the last
  backslash when \<open>k\<close> is odd. The cells are the parts behind the first separator: the first
  part, such as the white space \<open>ws\<close> before the first \<open>|\<close>, is left out. The line
  \<open>|a\|b |c\<close> in a table gives one row of two cells with the texts \<open>a|b\<close> and \<open>c\<close>.
\<close>

theorem escaped_pipe_cells:
  assumes "\<forall>c\<in>set ws. isSpace c"
    and "pre = [] \<or> last pre \<noteq> CHR 0x5C"
    and "CHR ''|'' \<notin> set plain"
  shows "splitLoop (replicate k (CHR 0x5C) @ CHR ''|'' # cs) parts cur 0 =
           (if even k then splitLoop cs (parts @ [cur @ replicate k (CHR 0x5C)]) [] 0
            else splitLoop cs parts (cur @ replicate (k - 1) (CHR 0x5C) @ ''|'') 0) \<and>
         readCells (tok\<lparr>raw := ws @ CHR ''|'' # cs\<rparr>) =
           map (tableCell (lineNo tok)) (splitLoop cs [] [] 0) \<and>
         parse (10 + n) (''|===\<newline>|a'' @ [CHR 0x5C] @ ''|b |c\<newline>|==='') =
           Some (Inr (Node K_Document \<lparr>line = 1, column = 1\<rparr> None [] [] [] []
             [Node K_Table \<lparr>line = 1, column = 1\<rparr> None [] [] [] []
                [Node K_TableRow \<lparr>line = 2, column = 1\<rparr> None [] [] [] []
                   [Node K_TableCell \<lparr>line = 2, column = 1\<rparr> None [] [] [] []
                      [Node K_Text \<lparr>line = 2, column = 1\<rparr> None ''a|b'' [] [] [] []],
                    Node K_TableCell \<lparr>line = 2, column = 1\<rparr> None [] [] [] []
                      [Node K_Text \<lparr>line = 2, column = 1\<rparr> None ''c'' [] [] [] []]]]])) \<and>
         splitUnescapedPipe (pre @ replicate k (CHR 0x5C) @ CHR ''|'' # cs) =
           (if even k then
              butlast (splitUnescapedPipe pre) @
              [last (splitUnescapedPipe pre) @ replicate k (CHR 0x5C)] @
              splitUnescapedPipe cs
            else
              butlast (splitUnescapedPipe pre) @
              [last (splitUnescapedPipe pre) @ replicate (k - 1) (CHR 0x5C) @ ''|'' @
               hd (splitUnescapedPipe cs)] @
              tl (splitUnescapedPipe cs)) \<and>
         splitUnescapedPipe plain = [plain] \<and>
         readCells tok = map (tableCell (lineNo tok)) (tl (splitUnescapedPipe (raw tok)))"
proof -
  have ex: "parse 10 (''|===\<newline>|a'' @ [CHR 0x5C] @ ''|b |c\<newline>|==='') =
           Some (Inr (Node K_Document \<lparr>line = 1, column = 1\<rparr> None [] [] [] []
             [Node K_Table \<lparr>line = 1, column = 1\<rparr> None [] [] [] []
                [Node K_TableRow \<lparr>line = 2, column = 1\<rparr> None [] [] [] []
                   [Node K_TableCell \<lparr>line = 2, column = 1\<rparr> None [] [] [] []
                      [Node K_Text \<lparr>line = 2, column = 1\<rparr> None ''a|b'' [] [] [] []],
                    Node K_TableCell \<lparr>line = 2, column = 1\<rparr> None [] [] [] []
                      [Node K_Text \<lparr>line = 2, column = 1\<rparr> None ''c'' [] [] [] []]]]]))"
    by code_simp
  have rc: "readCells tok = map (tableCell (lineNo tok)) (tl (splitUnescapedPipe (raw tok)))"
    by (simp add: readCells_def drop_Suc)
  show ?thesis
    by (rule conjI[OF escaped_pipe_rule
          conjI[OF readCells_leading_space[OF assms(1)]
            conjI[OF parse_mono[OF le_add1 ex]
              conjI[OF pipe_rule[OF assms(2)] conjI[OF no_pipe_rule[OF assms(3)] rc]]]]])
qed

theorem escaped_pipe_cells_witness:
  "list_all isSpace '' '' \<and>
   last (''|a'' @ [CHR 0x5C] @ ''b'') \<noteq> CHR 0x5C \<and>
   CHR ''|'' \<notin> set ''c'' \<and>
   splitLoop ([CHR 0x5C] @ ''|b |c'') [] ''a'' 0 = [''a|b '', ''c''] \<and>
   splitLoop ([CHR 0x5C, CHR 0x5C] @ ''|b'') [] ''a'' 0 = [''a'' @ [CHR 0x5C, CHR 0x5C], ''b''] \<and>
   map children (readCells (newTok\<lparr>lineNo := 2, raw := '' |a'' @ [CHR 0x5C] @ ''|b |c''\<rparr>)) =
     [[Node K_Text \<lparr>line = 2, column = 1\<rparr> None ''a|b'' [] [] [] []],
      [Node K_Text \<lparr>line = 2, column = 1\<rparr> None ''c'' [] [] [] []]] \<and>
   splitUnescapedPipe (''|a'' @ [CHR 0x5C] @ ''b|c'') = [[], ''a'' @ [CHR 0x5C] @ ''b'', ''c''] \<and>
   splitUnescapedPipe (''|a'' @ [CHR 0x5C] @ ''b'' @ [CHR 0x5C] @ ''|c'') =
     [[], ''a'' @ [CHR 0x5C] @ ''b|c'']"
proof -
  let ?pre = "''|a'' @ [CHR 0x5C] @ ''b''"
  have l: "list_all isSpace '' ''" by (simp add: isSpace_def)
  then have h: "\<forall>c\<in>set '' ''. isSpace c" by (simp only: list_all_iff)
  have h2: "last ?pre \<noteq> CHR 0x5C" by simp
  then have h2': "?pre = [] \<or> last ?pre \<noteq> CHR 0x5C" by (rule disjI2)
  have h3: "CHR ''|'' \<notin> set ''c''" by simp
  note th = escaped_pipe_cells[OF h h2' h3]
  have a: "splitLoop ([CHR 0x5C] @ ''|b |c'') [] ''a'' 0 = [''a|b '', ''c'']"
    using th[where k = 1 and cs = "''b |c''" and parts = "[]" and cur = "''a''", THEN conjunct1]
    by simp
  have b: "splitLoop ([CHR 0x5C, CHR 0x5C] @ ''|b'') [] ''a'' 0 = [''a'' @ [CHR 0x5C, CHR 0x5C], ''b'']"
    using th[where k = 2 and cs = "''b''" and parts = "[]" and cur = "''a''", THEN conjunct1]
    by (simp add: numeral_2_eq_2)
  have ev: "map children (map (tableCell 2) (splitLoop (''a'' @ [CHR 0x5C] @ ''|b |c'') [] [] 0)) =
     [[Node K_Text \<lparr>line = 2, column = 1\<rparr> None ''a|b'' [] [] [] []],
      [Node K_Text \<lparr>line = 2, column = 1\<rparr> None ''c'' [] [] [] []]]"
    by code_simp
  have c: "map children (readCells (newTok\<lparr>lineNo := 2, raw := '' |a'' @ [CHR 0x5C] @ ''|b |c''\<rparr>)) =
     [[Node K_Text \<lparr>line = 2, column = 1\<rparr> None ''a|b'' [] [] [] []],
      [Node K_Text \<lparr>line = 2, column = 1\<rparr> None ''c'' [] [] [] []]]"
    using th[where k = 0 and cs = "''a'' @ [CHR 0x5C] @ ''|b |c''" and parts = "[]" and cur = "[]"
        and tok = "newTok\<lparr>lineNo := 2\<rparr>", THEN conjunct2, THEN conjunct1] ev
    by simp
  have p: "splitUnescapedPipe ?pre = [[], ''a'' @ [CHR 0x5C] @ ''b'']" by code_simp
  have q: "splitUnescapedPipe ''c'' = [''c'']"
    by (rule th[THEN conjunct2, THEN conjunct2, THEN conjunct2, THEN conjunct2, THEN conjunct1])
  have d: "splitUnescapedPipe (''|a'' @ [CHR 0x5C] @ ''b|c'') = [[], ''a'' @ [CHR 0x5C] @ ''b'', ''c'']"
    using th[where k = 0 and cs = "''c''", THEN conjunct2, THEN conjunct2, THEN conjunct2,
        THEN conjunct1]
    unfolding p q by simp
  have e: "splitUnescapedPipe (''|a'' @ [CHR 0x5C] @ ''b'' @ [CHR 0x5C] @ ''|c'') =
     [[], ''a'' @ [CHR 0x5C] @ ''b|c'']"
    using th[where k = 1 and cs = "''c''", THEN conjunct2, THEN conjunct2, THEN conjunct2,
        THEN conjunct1]
    unfolding p q by simp
  show ?thesis
    by (rule conjI[OF l conjI[OF h2 conjI[OF h3 conjI[OF a conjI[OF b conjI[OF c conjI[OF d e]]]]]]])
qed

text \<open>
  C6. An opened fence that is not closed before the end of the input makes the parse fail
  with an error. For a raw block it does (lemma \<open>unclosed_listing_fails\<close> below). Inside
  a container block a table line stops the loop of \<open>parseDelimited\<close> from moving on:
  \<open>parseBlock\<close> answers an empty paragraph without taking a token, the loop adds it and
  starts over. For the lines \<open>====\<close>, \<open>|a\<close> the parse returns with no amount of fuel.
\<close>

theorem unclosed_container_with_table_line_diverges:
  "\<forall>n. parse n ''====\<newline>|a'' = None"
proof
  fix n
  let ?lx = "setInput ''====\<newline>|a''"
  let ?doc = "Node K_Document \<lparr>line = 1, column = 1\<rparr> None [] [] [] [] []"
  have h: "parseDocumentHeader ?doc (skipBlankAndLineComments ?lx) = (?doc, ?lx)"
    by code_simp
  have k1: "kind (la (advance ?lx) 0) = T_TABLE_LINE" by code_simp
  have m: "parseBlockMetaOpt ?lx = (None, ?lx)" by code_simp
  have k0: "kind (la ?lx 0) = T_DELIM_EXAMPLE" by code_simp
  have e: "\<not> atEnd ?lx" "skipBlankAndLineComments ?lx = ?lx" by code_simp+
  have d: "dispatch (parseBlock j) j ?lx = None" for j
    using delimitedLoop_table_line[where pb = "parseBlock j" and lx = "advance ?lx"
        and k = T_DELIM_EXAMPLE and n = j, OF k1 _ parseBlock_table_line[OF k1]]
    by (simp add: dispatch_def m k0 nonNull_def delimStart_def parseDelimited_def Let_def)
  have pb: "parseBlock j ?lx = None" for j
    using d by (cases j) simp_all
  have "documentLoop (parseBlock n) n ?doc ?lx = None"
    using pb e by (cases n) simp_all
  then show "parse n ''====\<newline>|a'' = None"
    unfolding parse_def parseDocument_def h by simp
qed

lemma unclosed_listing_fails:
  "parse (10 + n) ''----\<newline>foo'' =
     Some (Inl \<lparr>line = 3, column = 1, message = ''Expected closing delimiter''\<rparr>)"
proof -
  have "parse 10 ''----\<newline>foo'' =
     Some (Inl \<lparr>line = 3, column = 1, message = ''Expected closing delimiter''\<rparr>)"
    by code_simp
  then show ?thesis by (rule parse_mono[OF le_add1])
qed

text \<open>
  C7. A table line outside a table ends the parse with an error, in a section body and at
  the top level of the document. In a section body it does: the lines \<open>== A\<close>, \<open>|a\<close> give
  the error at line 2, column 1. At the top level \<open>parseDocument\<close> has no such test: for
  the single line \<open>|a\<close> its loop adds empty paragraphs without taking a token, and the
  parse returns with no amount of fuel.
\<close>

theorem top_level_table_line_diverges:
  "(\<forall>n. parse n ''|a'' = None) \<and>
   (\<forall>n. parse (10 + n) ''== A\<newline>|a'' =
     Some (Inl \<lparr>line = 2, column = 1, message = ''unexpected table line''\<rparr>))"

proof
  show "\<forall>n. parse n ''|a'' = None"
  proof
    fix n
    let ?lx = "setInput ''|a''"
    let ?doc = "Node K_Document \<lparr>line = 1, column = 1\<rparr> None [] [] [] [] []"
    have h: "parseDocumentHeader ?doc (skipBlankAndLineComments ?lx) = (?doc, ?lx)"
      by code_simp
    have k: "kind (la ?lx 0) = T_TABLE_LINE" by code_simp
    show "parse n ''|a'' = None"
      unfolding parse_def parseDocument_def h
      using documentLoop_table_line[where pb = "parseBlock n" and lx = ?lx,
          OF k parseBlock_table_line[OF k]]
      by simp
  qed
  have "parse 10 ''== A\<newline>|a'' =
     Some (Inl \<lparr>line = 2, column = 1, message = ''unexpected table line''\<rparr>)"
    by code_simp
  then show "\<forall>n. parse (10 + n) ''== A\<newline>|a'' =
     Some (Inl \<lparr>line = 2, column = 1, message = ''unexpected table line''\<rparr>)"
    by (intro allI parse_mono[OF le_add1])
qed

text \<open>
  C8. The line \<open>NOTE: be careful\<close> is classified as an admonition with head \<open>NOTE\<close> and
  rest \<open>be careful\<close>, parsed into an \<open>AdmonitionParagraph\<close> node named \<open>NOTE\<close> whose one
  child is the text \<open>be careful\<close>, and \<open>emitAdmonition\<close> writes for that node the line
  \<open>#admon("NOTE", [be careful])\<close>, ended by a newline, and returns true, whatever the
  options are.
\<close>

theorem admonition_round_trip:
  "classify ''NOTE: be careful'' 1 =
     \<lparr>kind = T_ADMONITION, lineNo = 1, raw = ''NOTE: be careful'', level = 0,
      head = ''NOTE'', rest = ''be careful''\<rparr> \<and>
   parse (10 + n) ''NOTE: be careful'' =
     Some (Inr (Node K_Document \<lparr>line = 1, column = 1\<rparr> None [] [] [] []
       [Node K_AdmonitionParagraph \<lparr>line = 1, column = 1\<rparr> None [] ''NOTE'' [] []
          [Node K_Text \<lparr>line = 1, column = 1\<rparr> None ''be careful'' [] [] [] []]])) \<and>
   emitAdmonition opt
       (Node K_AdmonitionParagraph \<lparr>line = 1, column = 1\<rparr> None [] ''NOTE'' [] []
          [Node K_Text \<lparr>line = 1, column = 1\<rparr> None ''be careful'' [] [] [] []]) =
     (''#admon('' @ [CHR 0x22] @ ''NOTE'' @ [CHR 0x22] @ '', [be careful])\<newline>'', None)"
proof -
  have a: "classify ''NOTE: be careful'' 1 =
     \<lparr>kind = T_ADMONITION, lineNo = 1, raw = ''NOTE: be careful'', level = 0,
      head = ''NOTE'', rest = ''be careful''\<rparr>"
    by code_simp
  have "parse 10 ''NOTE: be careful'' =
     Some (Inr (Node K_Document \<lparr>line = 1, column = 1\<rparr> None [] [] [] []
       [Node K_AdmonitionParagraph \<lparr>line = 1, column = 1\<rparr> None [] ''NOTE'' [] []
          [Node K_Text \<lparr>line = 1, column = 1\<rparr> None ''be careful'' [] [] [] []]]))"
    by code_simp
  then have b: "parse (10 + n) ''NOTE: be careful'' =
     Some (Inr (Node K_Document \<lparr>line = 1, column = 1\<rparr> None [] [] [] []
       [Node K_AdmonitionParagraph \<lparr>line = 1, column = 1\<rparr> None [] ''NOTE'' [] []
          [Node K_Text \<lparr>line = 1, column = 1\<rparr> None ''be careful'' [] [] [] []]]))"
    by (rule parse_mono[OF le_add1])
  have c: "emitAdmonition opt
       (Node K_AdmonitionParagraph \<lparr>line = 1, column = 1\<rparr> None [] ''NOTE'' [] []
          [Node K_Text \<lparr>line = 1, column = 1\<rparr> None ''be careful'' [] [] [] []]) =
     (''#admon('' @ [CHR 0x22] @ ''NOTE'' @ [CHR 0x22] @ '', [be careful])\<newline>'', None)"
    by code_simp
  show ?thesis by (rule conjI[OF a conjI[OF b c]])
qed

text \<open>
  C9. The recursion depth of \<open>parseInlineContentRec\<close> stays below a fixed bound for every
  input: no call is entered with a depth above 12. No guard enforces this. The source
  passes \<open>depth + 1\<close> down and never tests it: entered at any \<open>depth\<close>, the scanner reaches
  the depth it reaches from 0 raised by \<open>depth\<close>, and answers the same nodes. The bound
  holds because the text enclosed by a paired construct ends before the first occurrence
  of the closing marker, so each of the twelve closing markers can open at most one level
  on any chain of nested calls. For the text \<open>*_`code`_*\<close> the scanner entered at \<open>depth\<close>
  goes down to \<open>depth + 2\<close>, whatever \<open>depth\<close> is.
\<close>

theorem inline_recursion_depth_bounded:
  "inlineDepth s n \<le> 12 \<and>
   snd (parseInlineFrom s n depth 0 []) = depth + inlineDepth s n \<and>
   parseInlineContentRec s n depth = parseInlineContent s n"
proof -
  have "inlineDepth s n \<le> 0 + phi s"
    unfolding inlineDepth_def by (rule depth_bound)
  with phi_le[of s] have a: "inlineDepth s n \<le> 12" by simp
  have b: "snd (parseInlineFrom s n depth 0 []) = depth + inlineDepth s n"
    unfolding inlineDepth_def using depth_shift[of s n 0 depth 0 "[]"] by simp
  have c: "parseInlineContentRec s n depth = parseInlineContent s n"
    unfolding parseInlineContent_def parseInlineContentRec_def by (rule depth_never_read)
  show ?thesis by (rule conjI[OF a conjI[OF b c]])
qed

theorem inline_recursion_depth_bounded_witness:
  "inlineDepth ''*_`code`_*'' 1 \<le> 12 \<and> inlineDepth ''*_`code`_*'' 1 = 2"
proof -
  have a: "inlineDepth ''*_`code`_*'' 1 \<le> 12"
    by (rule inline_recursion_depth_bounded[THEN conjunct1])
  have b: "inlineDepth ''*_`code`_*'' 1 = 2"
    by code_simp
  from a b show ?thesis by simp
qed

theorem inline_recursion_no_guard_counterexample:
  "\<forall>depth. snd (parseInlineFrom ''*_`code`_*'' 1 depth 0 []) = depth + 2 \<and>
           parseInlineContentRec ''*_`code`_*'' 1 depth =
             [Node K_Emph \<lparr>line = 1, column = 1\<rparr> None [] ''bold'' [] []
                [Node K_Emph \<lparr>line = 1, column = 1\<rparr> None [] ''italic'' [] []
                   [Node K_Emph \<lparr>line = 1, column = 1\<rparr> None ''code'' ''mono'' [] [] []]]]"
proof
  fix depth
  have b: "snd (parseInlineFrom ''*_`code`_*'' 1 0 0 []) = 2" by code_simp
  have a: "snd (parseInlineFrom ''*_`code`_*'' 1 depth 0 []) = depth + 2"
    using depth_shift[of "''*_`code`_*''" 1 0 depth 0 "[]"] unfolding b by simp
  have c: "parseInlineContentRec ''*_`code`_*'' 1 0 =
             [Node K_Emph \<lparr>line = 1, column = 1\<rparr> None [] ''bold'' [] []
                [Node K_Emph \<lparr>line = 1, column = 1\<rparr> None [] ''italic'' [] []
                   [Node K_Emph \<lparr>line = 1, column = 1\<rparr> None ''code'' ''mono'' [] [] []]]]"
    by code_simp
  have d: "parseInlineContentRec ''*_`code`_*'' 1 depth = parseInlineContentRec ''*_`code`_*'' 1 0"
    unfolding parseInlineContentRec_def by (rule depth_never_read)
  show "snd (parseInlineFrom ''*_`code`_*'' 1 depth 0 []) = depth + 2 \<and>
           parseInlineContentRec ''*_`code`_*'' 1 depth =
             [Node K_Emph \<lparr>line = 1, column = 1\<rparr> None [] ''bold'' [] []
                [Node K_Emph \<lparr>line = 1, column = 1\<rparr> None [] ''italic'' [] []
                   [Node K_Emph \<lparr>line = 1, column = 1\<rparr> None ''code'' ''mono'' [] [] []]]]"
    unfolding d by (rule conjI[OF a c])
qed

text \<open>
  C10. A table that is not closed before the end of input is not always answered with a
  table: \<open>parseTable\<close> raises the row-width error when the cells read do not fit the width
  of the first row, as for the lines \<open>|===\<close>, \<open>|a|b\<close>, \<open>|c\<close>. What holds is that the missing
  close raises nothing. For an opening delimiter \<open>d\<close> followed by the
  tokens \<open>body\<close> up to the end of input, \<open>parseTable\<close> consumes all of \<open>body\<close> and answers
  what \<open>buildTable\<close> makes of the cells of the table lines of \<open>body\<close>: tokens of any other
  kind add no cells and raise nothing. The node or error is the same as with a closing
  delimiter \<open>d'\<close> behind \<open>body\<close>.
\<close>

theorem unterminated_table_accepted:
  assumes "kind d = T_TABLE_DELIM" and "kind d' = T_TABLE_DELIM"
    and "\<forall>t\<in>set body. kind t \<noteq> T_TABLE_DELIM \<and> kind t \<noteq> T_EOF"
  shows "parseTable m \<lparr>dtoks = pre @ d # body, eofLine = e, dpos = length pre\<rparr> =
           (case buildTable (Node K_Table (at1 (lineNo d)) m [] [] [] [] [])
                   (map readCells (filter (\<lambda>t. kind t = T_TABLE_LINE) body)) of
              Inl err \<Rightarrow> Inl err
            | Inr t \<Rightarrow>
                Inr (t, \<lparr>dtoks = pre @ d # body, eofLine = e,
                         dpos = length pre + 1 + length body\<rparr>)) \<and>
         map_sum id fst (parseTable m \<lparr>dtoks = pre @ d # body, eofLine = e, dpos = length pre\<rparr>) =
         map_sum id fst
           (parseTable m \<lparr>dtoks = pre @ d # body @ [d'], eofLine = e', dpos = length pre\<rparr>)"
proof -
  let ?parts = "map readCells (filter (\<lambda>t. kind t = T_TABLE_LINE) body)"
  let ?t0 = "Node K_Table (at1 (lineNo d)) m [] [] [] [] []"
  have open_end: "parseTable m \<lparr>dtoks = pre @ d # body, eofLine = e, dpos = length pre\<rparr> =
           (case buildTable ?t0 ?parts of
              Inl err \<Rightarrow> Inl err
            | Inr t \<Rightarrow>
                Inr (t, \<lparr>dtoks = pre @ d # body, eofLine = e,
                         dpos = length pre + 1 + length body\<rparr>))"
    by (rule parseTable_unterminated[OF assms(1,3)])
  have "tableRows \<lparr>dtoks = (pre @ [d]) @ body @ [d'], eofLine = e', dpos = length (pre @ [d])\<rparr> [] =
        ([] @ ?parts,
         \<lparr>dtoks = (pre @ [d]) @ body @ [d'], eofLine = e', dpos = length (pre @ [d]) + length body + 1\<rparr>)"
    by (rule tableRows_body_closed[OF assms(3,2)])
  then have closed: "parseTable m \<lparr>dtoks = pre @ d # body @ [d'], eofLine = e', dpos = length pre\<rparr> =
           (case buildTable ?t0 ?parts of
              Inl err \<Rightarrow> Inl err
            | Inr t \<Rightarrow>
                Inr (t, \<lparr>dtoks = pre @ d # body @ [d'], eofLine = e',
                         dpos = length pre + 1 + length body + 1\<rparr>))"
    using assms(1) peek_here[of pre d "body @ [d']" e'] advance_here[of pre d "body @ [d']" e']
    by (simp add: parseTable_def expect_def Let_def split: sum.splits)
  have "map_sum id fst (parseTable m \<lparr>dtoks = pre @ d # body, eofLine = e, dpos = length pre\<rparr>) =
        map_sum id fst (parseTable m \<lparr>dtoks = pre @ d # body @ [d'], eofLine = e', dpos = length pre\<rparr>)"
    unfolding open_end closed by (cases "buildTable ?t0 ?parts") simp_all
  with open_end show ?thesis by (rule conjI)
qed

theorem unterminated_table_accepted_witness:
  "kind (classify ''|==='' 1) = T_TABLE_DELIM \<and>
   list_all (\<lambda>t. kind t \<noteq> T_TABLE_DELIM \<and> kind t \<noteq> T_EOF)
     [classify ''|a|b'' 2, classify ''foo'' 3, classify ''|c|d'' 4] \<and>
   map_sum id (\<lambda>r. (cellTexts (fst r), dpos (snd r)))
     (parseTable None (setInput ''|===\<newline>|a|b\<newline>foo\<newline>|c|d'')) =
     Inr ([[''a'', ''b''], [''c'', ''d'']], 4)"
proof -
  let ?d = "classify ''|==='' 1"
  let ?body = "[classify ''|a|b'' 2, classify ''foo'' 3, classify ''|c|d'' 4]"
  have hd: "kind ?d = T_TABLE_DELIM" by code_simp
  have hl: "list_all (\<lambda>t. kind t \<noteq> T_TABLE_DELIM \<and> kind t \<noteq> T_EOF) ?body" by code_simp
  then have hb: "\<forall>t\<in>set ?body. kind t \<noteq> T_TABLE_DELIM \<and> kind t \<noteq> T_EOF"
    by (simp only: list_all_iff)
  have s: "setInput ''|===\<newline>|a|b\<newline>foo\<newline>|c|d'' =
           \<lparr>dtoks = [] @ ?d # ?body, eofLine = 5, dpos = length ([] :: LineTok list)\<rparr>"
    by code_simp
  note th = unterminated_table_accepted[OF hd hd hb, of None "[]" 5 5, THEN conjunct1]
  have rhs: "map_sum id (\<lambda>r. (cellTexts (fst r), dpos (snd r)))
       (case buildTable (Node K_Table (at1 (lineNo ?d)) None [] [] [] [] [])
               (map readCells (filter (\<lambda>t. kind t = T_TABLE_LINE) ?body)) of
          Inl err \<Rightarrow> Inl err
        | Inr t \<Rightarrow>
            Inr (t, \<lparr>dtoks = [] @ ?d # ?body, eofLine = 5,
                     dpos = length ([] :: LineTok list) + 1 + length ?body\<rparr>)) =
       Inr ([[''a'', ''b''], [''c'', ''d'']], 4)"
    by code_simp
  have "map_sum id (\<lambda>r. (cellTexts (fst r), dpos (snd r)))
     (parseTable None (setInput ''|===\<newline>|a|b\<newline>foo\<newline>|c|d'')) =
     Inr ([[''a'', ''b''], [''c'', ''d'']], 4)"
    unfolding s th by (rule rhs)
  with hd hl show ?thesis by (intro conjI)
qed

theorem unterminated_table_error_counterexample:
  "parseTable None (setInput ''|===\<newline>|a|b\<newline>|c'') =
     Inl \<lparr>line = 2, column = 1,
          message = ''the number of cells is not compatible with the table size''\<rparr>"
  by code_simp

end
